theory Spec2Isabelle
  imports Complex_Main "HOL-Library.Word" "HOL-Library.Sublist"
begin

section \<open>Strings and numbers of the program\<close>

text \<open>
  A JavaScript string is a sequence of 16-bit code units; the regular expressions of
  \<open>priceHelper.js\<close> (no \<open>u\<close> flag), \<open>substring\<close> and \<open>includes\<close> all work on
  code units. A Number is an IEEE double. A finite Number is given by its exact value, a
  rational (\<open>number\<close>); \<open>jsnumber\<close> adds the two infinities. \<open>NaN\<close> arises in
  \<open>parseFloat\<close> only, where it is \<open>None\<close>.
\<close>

type_synonym code_unit = "16 word"
type_synonym jsstring = "code_unit list"
type_synonym number = rat

datatype jsnumber = Finite number | PosInfinity | NegInfinity

definition ascii :: "string \<Rightarrow> jsstring" where
  "ascii s = map (\<lambda>c. of_nat (of_char c)) s"

definition RUPEE :: code_unit where "RUPEE = 0x20B9"
definition DOT :: code_unit where "DOT = 0x2E"
definition COMMA :: code_unit where "COMMA = 0x2C"

text \<open>
  Rounding to the nearest double, ties to even. \<open>binaryExponent a\<close> is the exponent
  of the power of two at or below \<open>a > 0\<close>; a double has 53 significant bits and its
  exponent is at least -1022 (below that the doubles are evenly spaced); a result of
  magnitude \<open>2 ^ 1024\<close> or more is an infinity. The operators \<open>+\<close>, \<open>-\<close> and \<open>*\<close>
  of the program round their exact result this way, and so does \<open>parseFloat\<close>.
\<close>

fun bitLength :: "nat \<Rightarrow> nat" where
  "bitLength n = (if n = 0 then 0 else Suc (bitLength (n div 2)))"

declare bitLength.simps [simp del]

definition binaryExponent :: "number \<Rightarrow> int" where
  "binaryExponent a =
     (if 1 \<le> a then int (bitLength (nat \<lfloor>a\<rfloor>)) - 1
      else - int (bitLength (nat (\<lceil>1 / a\<rceil> - 1))))"

definition roundHalfEven :: "number \<Rightarrow> int" where
  "roundHalfEven y =
     (let f = \<lfloor>y\<rfloor>; d = y - of_int f in
      if d < 1 / 2 then f else if 1 / 2 < d then f + 1 else if even f then f else f + 1)"

definition roundDouble :: "number \<Rightarrow> number" where
  "roundDouble x =
     (if x = 0 then 0
      else
        let e = max (binaryExponent \<bar>x\<bar>) (- 1022);
            u = (if 52 \<le> e then 2 ^ nat (e - 52) else 1 / 2 ^ nat (52 - e))
        in sgn x * of_int (roundHalfEven (\<bar>x\<bar> / u)) * u)"

definition toDouble :: "number \<Rightarrow> jsnumber" where
  "toDouble x =
     (let r = roundDouble x in
      if 2 ^ 1024 \<le> r then PosInfinity
      else if r \<le> - (2 ^ 1024) then NegInfinity
      else Finite r)"

fun jsAdd :: "jsnumber \<Rightarrow> number \<Rightarrow> jsnumber" where
  "jsAdd (Finite a) b = toDouble (a + b)"
| "jsAdd PosInfinity b = PosInfinity"
| "jsAdd NegInfinity b = NegInfinity"

fun jsSub :: "jsnumber \<Rightarrow> number \<Rightarrow> jsnumber" where
  "jsSub (Finite a) b = toDouble (a - b)"
| "jsSub PosInfinity b = PosInfinity"
| "jsSub NegInfinity b = NegInfinity"

definition jsMul :: "number \<Rightarrow> number \<Rightarrow> jsnumber" where
  "jsMul a b = toDouble (a * b)"

fun jsAbs :: "jsnumber \<Rightarrow> jsnumber" where
  "jsAbs (Finite a) = Finite \<bar>a\<bar>"
| "jsAbs PosInfinity = PosInfinity"
| "jsAbs NegInfinity = PosInfinity"

fun jsLess :: "jsnumber \<Rightarrow> jsnumber \<Rightarrow> bool" where
  "jsLess (Finite a) (Finite b) = (a < b)"
| "jsLess (Finite a) PosInfinity = True"
| "jsLess (Finite a) NegInfinity = False"
| "jsLess PosInfinity b = False"
| "jsLess NegInfinity NegInfinity = False"
| "jsLess NegInfinity b = True"

fun jsLessEq :: "jsnumber \<Rightarrow> jsnumber \<Rightarrow> bool" where
  "jsLessEq (Finite a) (Finite b) = (a \<le> b)"
| "jsLessEq (Finite a) PosInfinity = True"
| "jsLessEq (Finite a) NegInfinity = False"
| "jsLessEq PosInfinity PosInfinity = True"
| "jsLessEq PosInfinity b = False"
| "jsLessEq NegInfinity b = True"

text \<open>
  The Numbers that the literals \<open>0.1\<close> and \<open>0.15\<close> denote: the doubles nearest to
  1/10 and to 15/100.
\<close>

definition tenPercent :: number where
  "tenPercent = 3602879701896397 / 36028797018963968"

definition fifteenPercent :: number where
  "fifteenPercent = 5404319552844595 / 36028797018963968"

text \<open>The class \<open>\d\<close>: the ASCII digits.\<close>

definition isDigit :: "code_unit \<Rightarrow> bool" where
  "isDigit c = (0x30 \<le> c \<and> c \<le> 0x39)"

text \<open>The class \<open>\s\<close>: WhiteSpace and LineTerminator of ECMAScript.\<close>

definition isWhiteSpace :: "code_unit \<Rightarrow> bool" where
  "isWhiteSpace c =
     (c = 0x09 \<or> c = 0x0A \<or> c = 0x0B \<or> c = 0x0C \<or> c = 0x0D \<or> c = 0x20 \<or>
      c = 0xA0 \<or> c = 0x1680 \<or> (0x2000 \<le> c \<and> c \<le> 0x200A) \<or> c = 0x2028 \<or>
      c = 0x2029 \<or> c = 0x202F \<or> c = 0x205F \<or> c = 0x3000 \<or> c = 0xFEFF)"

text \<open>
  The class \<open>[\<rupee>Rs.,\s]\<close> under the flag \<open>i\<close>: the rupee sign, \<open>R\<close> and \<open>s\<close> in
  either case, the full stop, the comma and white space.
\<close>

definition isCurrencyNoise :: "code_unit \<Rightarrow> bool" where
  "isCurrencyNoise c =
     (c = RUPEE \<or> c = 0x52 \<or> c = 0x72 \<or> c = 0x53 \<or> c = 0x73 \<or>
      c = DOT \<or> c = COMMA \<or> isWhiteSpace c)"

text \<open>\<open>str.replace(/[class]/g, '')\<close> deletes every code unit of the class.\<close>

definition replaceGlobal :: "(code_unit \<Rightarrow> bool) \<Rightarrow> jsstring \<Rightarrow> jsstring" where
  "replaceGlobal cls s = filter (\<lambda>c. \<not> cls c) s"

definition digitVal :: "code_unit \<Rightarrow> nat" where
  "digitVal c = unat c - 48"

definition digitsValue :: "jsstring \<Rightarrow> nat" where
  "digitsValue ds = foldl (\<lambda>a c. 10 * a + digitVal c) 0 ds"

text \<open>
  The builtin \<open>parseFloat\<close> on the strings that reach it in \<open>extractPrice\<close>, whose
  code units are digits and full stops: the longest prefix that is a decimal literal
  (digits, then optionally a full stop and digits, at least one digit in all) gives the
  value, rounded to a double, and \<open>None\<close> is \<open>NaN\<close>. Signs, exponents, leading white
  space and \<open>Infinity\<close> cannot occur there and are not modelled: the literal ends at any
  other code unit.
\<close>

definition parseFloat :: "jsstring \<Rightarrow> jsnumber option" where
  "parseFloat s =
     (let ip = takeWhile isDigit s; r = dropWhile isDigit s in
      case r of
        [] \<Rightarrow> if ip = [] then None else Some (toDouble (of_nat (digitsValue ip)))
      | c # r' \<Rightarrow>
          if c = DOT then
            (let fp = takeWhile isDigit r' in
             if ip = [] \<and> fp = [] then None
             else Some (toDouble (of_nat (digitsValue ip)
                                  + of_nat (digitsValue fp) / 10 ^ length fp)))
          else if ip = [] then None else Some (toDouble (of_nat (digitsValue ip))))"

section \<open>PriceHelper\<close>

text \<open>
  \<^verbatim>\<open>
  static extractPrice(priceString) {
    if (!priceString) return 0;
    const cleanedPrice = priceString
      .replace(/[\<rupee>Rs.,\s]/gi, '')
      .replace(/[^\d.]/g, '');
    const price = parseFloat(cleanedPrice);
    return isNaN(price) ? 0 : price;
  }
  \<close>
  The argument is a string; the first line gives 0 for the empty string (as it does for
  \<open>null\<close> and \<open>undefined\<close>).
\<close>

definition extractPrice :: "jsstring \<Rightarrow> jsnumber" where
  "extractPrice priceString =
     (if priceString = [] then Finite 0
      else
        let cleanedPrice =
              replaceGlobal (\<lambda>c. \<not> (isDigit c \<or> c = DOT))
                (replaceGlobal isCurrencyNoise priceString)
        in case parseFloat cleanedPrice of None \<Rightarrow> Finite 0 | Some price \<Rightarrow> price)"

text \<open>
  The algorithm in the words of the specification: strip every character that is not an
  ASCII digit or a decimal point, parse the rest, and give 0 when that fails.
\<close>

definition extractPrice_spec :: "jsstring \<Rightarrow> jsnumber" where
  "extractPrice_spec text =
     (case parseFloat (filter (\<lambda>c. isDigit c \<or> c = DOT) text) of
        None \<Rightarrow> Finite 0
      | Some v \<Rightarrow> v)"












text \<open>
  \<^verbatim>\<open>
  static calculateTotal(prices) {
    return prices.reduce((sum, price) => sum + price, 0);
  }
  \<close>
\<close>

definition calculateTotal :: "number list \<Rightarrow> jsnumber" where
  "calculateTotal prices = foldl (\<lambda>sum price. jsAdd sum price) (Finite 0) prices"

text \<open>
  The items scraped from a listing or a cart: \<open>{ name, price, priceText }\<close>. The
  price of an item is a finite Number.
\<close>

record product =
  name :: jsstring
  price :: number
  priceText :: jsstring

text \<open>
  \<^verbatim>\<open>
  static generateSortViolationReport(products) {
    const violations = [];
    for (let i = 1; i < products.length; i++) {
      if (products[i].price < products[i - 1].price) {
        violations.push({
          position: i + 1,
          productName: products[i].name,
          productPrice: products[i].price,
          previousProductName: products[i - 1].name,
          previousProductPrice: products[i - 1].price
        });
      }
    }
    return {
      totalProducts: products.length,
      violationsFound: violations.length,
      isCorrectlySorted: violations.length === 0,
      violations: violations,
      violationDetails: violations.map(v => ...)
    };
  }
  \<close>
  The loop is \<open>scanViolations\<close>, started at \<open>i = 1\<close> with no violation; every index it
  reads is in range. The field \<open>violationDetails\<close>, one display line per violation, is
  left out.
\<close>

record violation =
  position :: nat
  productName :: jsstring
  productPrice :: number
  previousProductName :: jsstring
  previousProductPrice :: number

record sort_report =
  totalProducts :: nat
  violationsFound :: nat
  isCorrectlySorted :: bool
  violations :: "violation list"

definition mkViolation :: "product list \<Rightarrow> nat \<Rightarrow> violation" where
  "mkViolation products i =
     \<lparr>position = i + 1,
      productName = name (products ! i),
      productPrice = price (products ! i),
      previousProductName = name (products ! (i - 1)),
      previousProductPrice = price (products ! (i - 1))\<rparr>"

function scanViolations :: "product list \<Rightarrow> nat \<Rightarrow> violation list \<Rightarrow> violation list" where
  "scanViolations products i found =
     (if i < length products then
        scanViolations products (i + 1)
          (if price (products ! i) < price (products ! (i - 1))
           then found @ [mkViolation products i]
           else found)
      else found)"
  by pat_completeness auto
termination
  by (relation "measure (\<lambda>(products, i, found). length products - i)") auto

declare scanViolations.simps [simp del]

definition generateSortViolationReport :: "product list \<Rightarrow> sort_report" where
  "generateSortViolationReport products =
     (let found = scanViolations products 1 [] in
      \<lparr>totalProducts = length products,
       violationsFound = length found,
       isCorrectlySorted = (length found = 0),
       violations = found\<rparr>)"

section \<open>CartPage\<close>

text \<open>
  What the page object reads from the browser is outside the program's logic: the page
  is given by the items \<open>getCartItems\<close> scrapes and by the text of the total element
  (\<open>None\<close> when no such element is found, or when it has no text).
\<close>

record cart_page =
  scrapedItems :: "product list"
  totalText :: "jsstring option"

definition getCartItems :: "cart_page \<Rightarrow> product list" where
  "getCartItems page = scrapedItems page"

definition getCartTotal :: "cart_page \<Rightarrow> jsnumber" where
  "getCartTotal page = (case totalText page of None \<Rightarrow> Finite 0 | Some t \<Rightarrow> extractPrice t)"

definition calculateExpectedTotal :: "cart_page \<Rightarrow> jsnumber" where
  "calculateExpectedTotal page = calculateTotal (map price (getCartItems page))"

text \<open>
  The builtins \<open>s.includes(t)\<close> and \<open>s.substring(0, n)\<close>. The builtin \<open>toLowerCase\<close>
  (the case mapping of Unicode) is a parameter \<open>lc\<close> of the functions that use it. On a
  string of ASCII code units it is \<open>asciiLowerCase\<close>, which turns \<open>A\<close> to \<open>Z\<close> into
  \<open>a\<close> to \<open>z\<close> and keeps every other code unit: \<open>lowerCasesAscii lc\<close> says so of \<open>lc\<close>.
\<close>

definition isAscii :: "jsstring \<Rightarrow> bool" where
  "isAscii s = (\<forall>c \<in> set s. c < 0x80)"

definition stringIncludes :: "jsstring \<Rightarrow> jsstring \<Rightarrow> bool" where
  "stringIncludes s t = sublist t s"

definition substring0 :: "jsstring \<Rightarrow> nat \<Rightarrow> jsstring" where
  "substring0 s n = take n s"

definition asciiLowerCase :: "jsstring \<Rightarrow> jsstring" where
  "asciiLowerCase s = map (\<lambda>c. if 0x41 \<le> c \<and> c \<le> 0x5A then c + 0x20 else c) s"

definition lowerCasesAscii :: "(jsstring \<Rightarrow> jsstring) \<Rightarrow> bool" where
  "lowerCasesAscii lc = (\<forall>s. isAscii s \<longrightarrow> lc s = asciiLowerCase s)"

text \<open>
  \<^verbatim>\<open>
  async validateCartContents(expectedProducts) {
    const cartItems = await this.getCartItems();
    const validationResult = { passed: true, cartItems: cartItems,
      expectedProducts: expectedProducts, matches: [], mismatches: [] };
    for (const expected of expectedProducts) {
      const matchingItem = cartItems.find(item =>
        item.name.toLowerCase().includes(expected.name.toLowerCase().substring(0, 20)) ||
        expected.name.toLowerCase().includes(item.name.toLowerCase().substring(0, 20)));
      if (matchingItem) {
        const priceDiff = Math.abs(matchingItem.price - expected.price);
        const priceMatch = priceDiff < 100 || expected.price === 0;
        if (priceMatch) {
          validationResult.matches.push({ expected, actual: matchingItem, status: 'MATCH' });
        } else {
          validationResult.passed = false;
          validationResult.mismatches.push({ expected, actual: matchingItem,
            status: 'PRICE_MISMATCH', message: ... });
        }
      } else {
        validationResult.passed = false;
        validationResult.mismatches.push({ expected, actual: null,
          status: 'NOT_FOUND', message: ... });
      }
    }
    return validationResult;
  }
  \<close>
  The body of the loop is \<open>checkExpected\<close>. The \<open>message\<close> of a mismatch, a display
  line, is left out.
\<close>

datatype status = MATCH | PRICE_MISMATCH | NOT_FOUND

record verdict =
  expected :: product
  actual :: "product option"
  status :: status

record validation_result =
  passed :: bool
  cartItems :: "product list"
  expectedProducts :: "product list"
  matches :: "verdict list"
  mismatches :: "verdict list"

definition nameMatches :: "(jsstring \<Rightarrow> jsstring) \<Rightarrow> product \<Rightarrow> product \<Rightarrow> bool" where
  "nameMatches lc expectedItem item =
     (stringIncludes (lc (name item)) (substring0 (lc (name expectedItem)) 20) \<or>
      stringIncludes (lc (name expectedItem)) (substring0 (lc (name item)) 20))"

definition checkExpected ::
  "(jsstring \<Rightarrow> jsstring) \<Rightarrow> product list \<Rightarrow> validation_result \<Rightarrow> product \<Rightarrow> validation_result"
where
  "checkExpected lc items validationResult expectedItem =
     (case find (nameMatches lc expectedItem) items of
        Some matchingItem \<Rightarrow>
          (let priceDiff = jsAbs (jsSub (Finite (price matchingItem)) (price expectedItem));
               priceMatch = (jsLess priceDiff (Finite 100) \<or> price expectedItem = 0)
           in if priceMatch then
                validationResult
                  \<lparr>matches := matches validationResult @
                     [\<lparr>expected = expectedItem, actual = Some matchingItem, status = MATCH\<rparr>]\<rparr>
              else
                validationResult
                  \<lparr>passed := False,
                   mismatches := mismatches validationResult @
                     [\<lparr>expected = expectedItem, actual = Some matchingItem,
                       status = PRICE_MISMATCH\<rparr>]\<rparr>)
      | None \<Rightarrow>
          validationResult
            \<lparr>passed := False,
             mismatches := mismatches validationResult @
               [\<lparr>expected = expectedItem, actual = None, status = NOT_FOUND\<rparr>]\<rparr>)"

text \<open>
  The record the body of the loop pushes for one expected item, onto \<open>matches\<close> when
  its status is \<open>MATCH\<close> and onto \<open>mismatches\<close> otherwise.
\<close>

definition verdictOf :: "(jsstring \<Rightarrow> jsstring) \<Rightarrow> product list \<Rightarrow> product \<Rightarrow> verdict" where
  "verdictOf lc items expectedItem =
     (case find (nameMatches lc expectedItem) items of
        Some matchingItem \<Rightarrow>
          \<lparr>expected = expectedItem, actual = Some matchingItem,
           status =
             (if jsLess (jsAbs (jsSub (Finite (price matchingItem)) (price expectedItem)))
                   (Finite 100)
                 \<or> price expectedItem = 0
              then MATCH else PRICE_MISMATCH)\<rparr>
      | None \<Rightarrow> \<lparr>expected = expectedItem, actual = None, status = NOT_FOUND\<rparr>)"

definition validateCartContents ::
  "(jsstring \<Rightarrow> jsstring) \<Rightarrow> cart_page \<Rightarrow> product list \<Rightarrow> validation_result"
where
  "validateCartContents lc page expectedList =
     (let items = getCartItems page;
          validationResult =
            \<lparr>passed = True, cartItems = items, expectedProducts = expectedList,
             matches = [], mismatches = []\<rparr>
      in foldl (checkExpected lc items) validationResult expectedList)"

text \<open>
  \<^verbatim>\<open>
  async validateTotal(expectedTotal) {
    const displayedTotal = await this.getCartTotal();
    const calculatedTotal = await this.calculateExpectedTotal();
    const tolerance = expectedTotal * 0.1; // 10% tolerance
    return {
      displayedTotal: displayedTotal,
      calculatedTotal: calculatedTotal,
      expectedTotal: expectedTotal,
      isDisplayedCorrect: Math.abs(displayedTotal - expectedTotal) <= tolerance,
      isCalculatedCorrect: Math.abs(calculatedTotal - expectedTotal) <= tolerance,
      message: ...
    };
  }
  \<close>
\<close>

record total_validation =
  displayedTotal :: jsnumber
  calculatedTotal :: jsnumber
  expectedTotal :: number
  isDisplayedCorrect :: bool
  isCalculatedCorrect :: bool

definition validateTotal :: "cart_page \<Rightarrow> number \<Rightarrow> total_validation" where
  "validateTotal page expectedSum =
     (let displayed = getCartTotal page;
          calculated = calculateExpectedTotal page;
          tolerance = jsMul expectedSum tenPercent
      in \<lparr>displayedTotal = displayed,
          calculatedTotal = calculated,
          expectedTotal = expectedSum,
          isDisplayedCorrect = jsLessEq (jsAbs (jsSub displayed expectedSum)) tolerance,
          isCalculatedCorrect = jsLessEq (jsAbs (jsSub calculated expectedSum)) tolerance\<rparr>)"

text \<open>
  The comparison in the words of the specification, where the tolerance ratio is an
  argument: \<open>compareTotal(displayed, calculated, expected, toleranceRatio)\<close> with the
  boolean \<open>|total - expected| <= expected * toleranceRatio\<close> for each side.
\<close>

definition compareTotal_spec ::
  "jsnumber \<Rightarrow> jsnumber \<Rightarrow> number \<Rightarrow> number \<Rightarrow> bool \<times> bool"
where
  "compareTotal_spec displayed calculated expectedSum toleranceRatio =
     (jsLessEq (jsAbs (jsSub displayed expectedSum)) (jsMul expectedSum toleranceRatio),
      jsLessEq (jsAbs (jsSub calculated expectedSum)) (jsMul expectedSum toleranceRatio))"

text \<open>
  The items of the reconciliation examples: an expected item \<open>Nike Air Shoes\<close> at 1500,
  the same in capitals, and one \<open>Puma Sneakers\<close> at 2000, against a cart that holds
  \<open>Nike Air Shoes Running\<close> at 1550.
\<close>

definition nikeAirShoes :: product where
  "nikeAirShoes = \<lparr>name = ascii ''Nike Air Shoes'', price = 1500, priceText = []\<rparr>"

definition nikeAirShoesRunning :: product where
  "nikeAirShoesRunning =
     \<lparr>name = ascii ''Nike Air Shoes Running'', price = 1550, priceText = []\<rparr>"

definition pumaSneakers :: product where
  "pumaSneakers = \<lparr>name = ascii ''Puma Sneakers'', price = 2000, priceText = []\<rparr>"

definition nikeUpperCase :: product where
  "nikeUpperCase = \<lparr>name = ascii ''NIKE AIR SHOES'', price = 1500, priceText = []\<rparr>"

definition nikeCart :: cart_page where
  "nikeCart = \<lparr>scrapedItems = [nikeAirShoesRunning], totalText = None\<rparr>"

section \<open>Rounding to a double\<close>

lemma bitLength_pos: "0 < n \<Longrightarrow> 0 < bitLength n"
  by (subst bitLength.simps) simp

lemma bitLength_bounds: "0 < n \<Longrightarrow> 2 ^ (bitLength n - 1) \<le> n \<and> n < 2 ^ bitLength n"
proof (induction n rule: bitLength.induct)
  case (1 n)
  show ?case
  proof (cases "n div 2 = 0")
    case True
    with 1(2) have "n = 1" by (simp add: div_eq_0_iff)
    moreover have "bitLength (Suc 0) = Suc 0"
      by (subst bitLength.simps, simp, subst bitLength.simps, simp)
    ultimately show ?thesis
      by simp
  next
    case False
    then have h: "0 < n div 2" by simp
    with 1 have ih: "2 ^ (bitLength (n div 2) - 1) \<le> n div 2"
      "n div 2 < 2 ^ bitLength (n div 2)" by simp_all
    have b: "bitLength n = Suc (bitLength (n div 2))"
      using 1(2) by (subst bitLength.simps) simp
    from bitLength_pos [OF h] obtain k where k: "bitLength (n div 2) = Suc k"
      by (cases "bitLength (n div 2)") auto
    from ih k have "2 * 2 ^ k \<le> n" "n < 2 * 2 ^ Suc k"
      by simp_all
    then show ?thesis
      by (simp add: b k)
  qed
qed

lemma roundHalfEven_of_int: "roundHalfEven (of_int z) = z"
  by (simp add: roundHalfEven_def)

lemma roundHalfEven_nonneg: "0 \<le> y \<Longrightarrow> 0 \<le> roundHalfEven y"
  by (simp add: roundHalfEven_def Let_def)

lemma roundHalfEven_ge_floor: "\<lfloor>y\<rfloor> \<le> roundHalfEven y"
  by (simp add: roundHalfEven_def Let_def)

lemma binaryExponent_nat: "0 < n \<Longrightarrow> binaryExponent (of_nat n) = int (bitLength n) - 1"
  by (simp add: binaryExponent_def)

lemma roundDouble_nat_exact:
  assumes "n < 2 ^ 53"
  shows "roundDouble (of_nat n) = of_nat n"
proof (cases "n = 0")
  case True
  then show ?thesis by (simp add: roundDouble_def)
next
  case False
  then have pos: "0 < n" by simp
  define b where "b = bitLength n"
  from bitLength_bounds [OF pos] have lo: "2 ^ (b - 1) \<le> n" and hi: "n < 2 ^ b"
    by (simp_all add: b_def)
  from bitLength_pos [OF pos] have b1: "1 \<le> b" by (simp add: b_def)
  from lo assms have "(2::nat) ^ (b - 1) < 2 ^ 53" by simp
  then have "b - 1 < 53" by (simp only: power_strict_increasing_iff)
  with b1 have b53: "b \<le> 53" by simp
  define k where "k = 53 - b"
  have e: "max (binaryExponent \<bar>of_nat n\<bar>) (- 1022) = int b - 1"
    using b1 by (simp add: binaryExponent_nat [OF pos] b_def [symmetric])
  have u: "(if 52 \<le> int b - 1 then 2 ^ nat (int b - 1 - 52) else 1 / 2 ^ nat (52 - (int b - 1)))
            = (1 / 2 ^ k :: rat)"
  proof (cases "b = 53")
    case True
    then show ?thesis by (simp add: k_def)
  next
    case False
    with b53 have "b < 53" by simp
    then have "nat (52 - (int b - 1)) = k" by (simp add: k_def)
    with \<open>b < 53\<close> show ?thesis by simp
  qed
  have q: "\<bar>of_nat n :: rat\<bar> / (1 / 2 ^ k) = of_int (int (n * 2 ^ k))"
    by simp
  have "roundDouble (of_nat n) = sgn (of_nat n :: rat) * of_int (int (n * 2 ^ k)) * (1 / 2 ^ k)"
    using False unfolding roundDouble_def Let_def e u q roundHalfEven_of_int by simp
  also have "\<dots> = of_nat n"
    using pos by simp
  finally show ?thesis .
qed

lemma toDouble_nat_exact: "n < 2 ^ 53 \<Longrightarrow> toDouble (of_nat n) = Finite (of_nat n)"
proof -
  assume a: "n < 2 ^ 53"
  then have "(of_nat n :: rat) < of_nat (2 ^ 53)"
    unfolding of_nat_less_iff .
  then have "(of_nat n :: rat) < 2 ^ 1024" by simp
  moreover have "- (2 ^ 1024) < (of_nat n :: rat)"
  proof -
    have "- (2 ^ 1024) < (0 :: rat)" by simp
    also have "\<dots> \<le> of_nat n" by simp
    finally show ?thesis .
  qed
  ultimately show ?thesis
    by (simp add: toDouble_def roundDouble_nat_exact [OF a] Let_def)
qed

lemma roundDouble_nat_large:
  assumes "2 ^ 53 \<le> n"
  shows "\<exists>m. roundDouble (of_nat n) = of_nat m \<and> 2 ^ (bitLength n - 1) \<le> m"
proof -
  from assms have pos: "0 < n"
    by (cases "n = 0") simp_all
  define b where "b = bitLength n"
  from bitLength_bounds [OF pos] have lo: "2 ^ (b - 1) \<le> n" and hi: "n < 2 ^ b"
    by (simp_all add: b_def)
  from assms hi have "(2::nat) ^ 53 < 2 ^ b" by simp
  then have b54: "53 < b" by (simp only: power_strict_increasing_iff) 
  define k where "k = b - 53"
  have bk: "b - 1 = 52 + k" using b54 by (simp add: k_def)
  have e: "max (binaryExponent \<bar>of_nat n\<bar>) (- 1022) = int b - 1"
    using b54 by (simp add: binaryExponent_nat [OF pos] b_def [symmetric])
  have u: "(if 52 \<le> int b - 1 then 2 ^ nat (int b - 1 - 52) else 1 / 2 ^ nat (52 - (int b - 1)))
            = (2 ^ k :: rat)"
  proof -
    have "nat (int b - 1 - 52) = k" using b54 by (simp add: k_def)
    with b54 show ?thesis by simp
  qed
  define q where "q = roundHalfEven (\<bar>of_nat n :: rat\<bar> / 2 ^ k)"
  have "(2 :: rat) ^ 52 * 2 ^ k \<le> of_nat n"
  proof -
    from lo have "(2 :: nat) ^ (52 + k) \<le> n"
      unfolding bk .
    then have "(2 :: nat) ^ 52 * 2 ^ k \<le> n"
      by (simp add: power_add)
    then have "(of_nat (2 ^ 52 * 2 ^ k) :: rat) \<le> of_nat n"
      unfolding of_nat_le_iff .
    then show ?thesis by simp
  qed
  then have "(2 :: rat) ^ 52 \<le> \<bar>of_nat n :: rat\<bar> / 2 ^ k"
    by (simp add: pos_le_divide_eq)
  then have "(2 :: int) ^ 52 \<le> \<lfloor>\<bar>of_nat n :: rat\<bar> / 2 ^ k\<rfloor>"
    by (simp add: le_floor_iff)
  from this roundHalfEven_ge_floor [of "\<bar>of_nat n :: rat\<bar> / 2 ^ k"]
  have q52: "2 ^ 52 \<le> q"
    unfolding q_def by (rule order_trans)
  then have q0: "0 \<le> q" by simp
  have r: "roundDouble (of_nat n) = of_int q * 2 ^ k"
    using pos unfolding roundDouble_def Let_def e u q_def by simp
  have "of_int q * (2 ^ k :: rat) = of_nat (nat q * 2 ^ k)"
    using q0 by simp
  moreover have "2 ^ (b - 1) \<le> nat q * 2 ^ k"
  proof -
    from q52 have "2 ^ 52 \<le> nat q" by (simp add: le_nat_iff)
    then have "2 ^ 52 * 2 ^ k \<le> nat q * 2 ^ k" by simp
    then have "2 ^ (52 + k) \<le> nat q * 2 ^ k" by (simp add: power_add)
    then show ?thesis unfolding bk .
  qed
  ultimately show ?thesis
    unfolding r b_def [symmetric] by blast
qed

lemma roundDouble_nat_whole: "\<exists>m. roundDouble (of_nat n) = of_nat m"
proof (cases "n < 2 ^ 53")
  case True
  then show ?thesis using roundDouble_nat_exact by blast
next
  case False
  then show ?thesis using roundDouble_nat_large [of n] by auto
qed

lemma toDouble_nat_whole:
  "toDouble (of_nat n) = PosInfinity \<or> (\<exists>m. toDouble (of_nat n) = Finite (of_nat m))"
proof -
  from roundDouble_nat_whole obtain m where m: "roundDouble (of_nat n) = of_nat m" by blast
  have "\<not> (of_nat m :: rat) \<le> - (2 ^ 1024)"
  proof -
    have "- (2 ^ 1024) < (0 :: rat)" by simp
    also have "\<dots> \<le> of_nat m" by simp
    finally show ?thesis by simp
  qed
  then show ?thesis
    unfolding toDouble_def Let_def m by auto
qed

lemma toDouble_overflow:
  assumes "2 ^ 1024 \<le> n"
  shows "toDouble (of_nat n) = PosInfinity"
proof -
  have "(2 :: nat) ^ 53 \<le> 2 ^ 1024" by simp
  from this assms have big: "2 ^ 53 \<le> n" by (rule order_trans)
  then have pos: "0 < n"
    by (cases "n = 0") simp_all
  from roundDouble_nat_large [OF big] obtain m
    where m: "roundDouble (of_nat n) = of_nat m" "2 ^ (bitLength n - 1) \<le> m" by blast
  from bitLength_bounds [OF pos] assms have "(2 :: nat) ^ 1024 < 2 ^ bitLength n"
    by simp
  then have "1024 < bitLength n" by (simp only: power_strict_increasing_iff)
  then have "(2 :: nat) ^ 1024 \<le> 2 ^ (bitLength n - 1)"
    by (intro power_increasing) simp_all
  from this m(2) have "2 ^ 1024 \<le> m" by (rule order_trans)
  then have "(of_nat (2 ^ 1024) :: rat) \<le> of_nat m"
    unfolding of_nat_le_iff .
  then show ?thesis
    unfolding toDouble_def Let_def m(1) by simp
qed

lemma bitLength_unique:
  assumes "2 ^ k \<le> n" "n < 2 * 2 ^ k"
  shows "bitLength n = Suc k"
proof -
  from assms(1) have pos: "0 < n"
    by (cases "n = 0") simp_all
  from bitLength_bounds [OF pos] have lo: "2 ^ (bitLength n - 1) \<le> n" and hi: "n < 2 ^ bitLength n"
    by simp_all
  from assms(1) hi have "(2 :: nat) ^ k < 2 ^ bitLength n" by (rule le_less_trans)
  then have a: "k < bitLength n" by (simp only: power_strict_increasing_iff)
  from assms(2) have "n < 2 ^ Suc k" by simp
  with lo have "(2 :: nat) ^ (bitLength n - 1) < 2 ^ Suc k" by (rule le_less_trans)
  then have "bitLength n - 1 < Suc k" by (simp only: power_strict_increasing_iff)
  with a show ?thesis by simp
qed

lemma binaryExponent_ge1:
  assumes "2 ^ k \<le> a" "a < 2 * 2 ^ k"
  shows "binaryExponent a = int k"
proof -
  have "(1 :: rat) \<le> 2 ^ k" by simp
  from this assms(1) have a1: "1 \<le> a" by (rule order_trans)
  then have f0: "0 \<le> \<lfloor>a\<rfloor>" by simp
  have "(of_int (2 ^ k) :: rat) \<le> a" using assms(1) by simp
  then have lo: "2 ^ k \<le> \<lfloor>a\<rfloor>" by (simp only: le_floor_iff)
  have "a < of_int (2 * 2 ^ k)" using assms(2) by simp
  then have hi: "\<lfloor>a\<rfloor> < 2 * 2 ^ k" by (simp only: floor_less_iff)
  from lo f0 have "2 ^ k \<le> nat \<lfloor>a\<rfloor>"
    by (simp add: le_nat_iff)
  moreover from hi f0 have "nat \<lfloor>a\<rfloor> < 2 * 2 ^ k"
    by (simp add: nat_less_iff)
  ultimately have "bitLength (nat \<lfloor>a\<rfloor>) = Suc k"
    by (rule bitLength_unique)
  with a1 show ?thesis
    by (simp add: binaryExponent_def)
qed

lemma binaryExponent_lt1:
  assumes "1 / 2 ^ Suc j \<le> a" "a < 2 / 2 ^ Suc j"
  shows "binaryExponent a = - int (Suc j)"
proof -
  have pos: "0 < a"
  proof -
    have "(0 :: rat) < 1 / 2 ^ Suc j" by simp
    from this assms(1) show ?thesis by (rule less_le_trans)
  qed
  have "(2 :: rat) / 2 ^ Suc j \<le> 1" by simp
  with assms(2) have a1: "a < 1" by (rule less_le_trans)
  have up: "1 / a \<le> 2 ^ Suc j"
    using assms(1) pos by (simp add: field_simps)
  have dn: "2 ^ j < 1 / a"
    using assms(2) pos by (simp add: field_simps)
  have "1 / a \<le> of_int (2 ^ Suc j)" using up by simp
  then have hi: "\<lceil>1 / a\<rceil> \<le> 2 ^ Suc j" by (simp only: ceiling_le_iff)
  have "of_int (2 ^ j) < 1 / a" using dn by simp
  then have lo: "2 ^ j < \<lceil>1 / a\<rceil>" by (simp only: less_ceiling_iff)
  from lo have "2 ^ j \<le> nat (\<lceil>1 / a\<rceil> - 1)"
    by (simp add: le_nat_iff)
  moreover have "nat (\<lceil>1 / a\<rceil> - 1) < 2 * 2 ^ j"
  proof -
    have "(0 :: int) \<le> 2 ^ j" by simp
    with lo have c0: "0 \<le> \<lceil>1 / a\<rceil> - 1" by linarith
    from hi have "\<lceil>1 / a\<rceil> - 1 < 2 * 2 ^ j" by simp
    with c0 have "int (nat (\<lceil>1 / a\<rceil> - 1)) < int (2 * 2 ^ j)" by simp
    then show ?thesis unfolding of_nat_less_iff .
  qed
  ultimately have "bitLength (nat (\<lceil>1 / a\<rceil> - 1)) = Suc j"
    by (rule bitLength_unique)
  with a1 show ?thesis
    by (simp add: binaryExponent_def)
qed

lemma roundHalfEven_near: "\<bar>y - of_int q\<bar> < 1 / 2 \<Longrightarrow> roundHalfEven y = q"
proof -
  assume a: "\<bar>y - of_int q\<bar> < 1 / 2"
  show ?thesis
  proof (cases "of_int q \<le> y")
    case True
    with a have "y < of_int q + 1 / 2" by simp
    with True have "\<lfloor>y\<rfloor> = q" by (intro floor_unique) simp_all
    with \<open>y < of_int q + 1 / 2\<close> show ?thesis
      by (simp add: roundHalfEven_def Let_def)
  next
    case False
    with a have b: "of_int q - 1 / 2 < y" "y < of_int q" by simp_all
    then have "\<lfloor>y\<rfloor> = q - 1" by (intro floor_unique) simp_all
    with b show ?thesis
      by (simp add: roundHalfEven_def Let_def)
  qed
qed

lemma roundDouble_eq:
  assumes "0 < x" "max (binaryExponent x) (- 1022) = e"
    and "u = (if 52 \<le> e then 2 ^ nat (e - 52) else 1 / 2 ^ nat (52 - e))"
    and "\<bar>x / u - of_int q\<bar> < 1 / 2"
  shows "roundDouble x = of_int q * u"
proof -
  from assms(1) have ax: "\<bar>x\<bar> = x" and sx: "sgn x = 1" and nz: "(x = 0) = False"
    by simp_all
  have "roundDouble x = sgn x * of_int (roundHalfEven (\<bar>x\<bar> / u)) * u"
    unfolding roundDouble_def Let_def nz if_False ax assms(2) assms(3) ..
  then show ?thesis
    unfolding ax sx roundHalfEven_near [OF assms(4)] by simp
qed

lemma roundDouble_minus: "roundDouble (- x) = - roundDouble x"
  by (simp add: roundDouble_def Let_def sgn_minus)

lemma roundDouble_int_exact:
  assumes "\<bar>z\<bar> < 2 ^ 53"
  shows "roundDouble (of_int z) = of_int z"
proof (cases "0 \<le> z")
  case True
  with assms have "nat z < 2 ^ 53" by (simp add: nat_less_iff)
  from roundDouble_nat_exact [OF this] True show ?thesis by simp
next
  case False
  with assms have "nat (- z) < 2 ^ 53" by (simp add: nat_less_iff)
  from roundDouble_nat_exact [OF this] False have "roundDouble (of_int (- z)) = of_int (- z)"
    by simp
  then show ?thesis
    using roundDouble_minus [of "of_int z"] by simp
qed

lemma toDouble_int_exact:
  assumes "\<bar>z\<bar> < 2 ^ 53"
  shows "toDouble (of_int z) = Finite (of_int z)"
proof -
  from assms have "(of_int \<bar>z\<bar> :: rat) < of_int (2 ^ 53)"
    unfolding of_int_less_iff .
  then have "\<bar>of_int z :: rat\<bar> < 2 ^ 53" by simp
  moreover have "(2 :: rat) ^ 53 < 2 ^ 1024" by simp
  ultimately have "\<bar>of_int z :: rat\<bar> < 2 ^ 1024" by (rule less_trans)
  then have "(of_int z :: rat) < 2 ^ 1024" "- (2 ^ 1024) < (of_int z :: rat)"
    by (simp_all add: abs_less_iff)
  then show ?thesis
    by (simp add: toDouble_def Let_def roundDouble_int_exact [OF assms])
qed



lemma toDouble_finite:
  "roundDouble x = r \<Longrightarrow> - (2 ^ 1024) < r \<Longrightarrow> r < 2 ^ 1024 \<Longrightarrow> toDouble x = Finite r"
  by (simp add: toDouble_def Let_def)

section \<open>The price normalizer\<close>

lemma isDigit_not_noise: "isDigit c \<Longrightarrow> \<not> isCurrencyNoise c"
  unfolding isDigit_def isCurrencyNoise_def isWhiteSpace_def RUPEE_def DOT_def COMMA_def
  by (auto simp: word_le_nat_alt)

lemma noise_DOT: "isCurrencyNoise DOT"
  by (simp add: isCurrencyNoise_def)

lemma cleaned_digits:
  "replaceGlobal (\<lambda>c. \<not> (isDigit c \<or> c = DOT)) (replaceGlobal isCurrencyNoise s)
     = filter isDigit s"
  unfolding replaceGlobal_def
  by (induction s) (use isDigit_not_noise noise_DOT in auto)

lemma parseFloat_digits:
  "\<forall>c \<in> set ds. isDigit c \<Longrightarrow>
   parseFloat ds = (if ds = [] then None else Some (toDouble (of_nat (digitsValue ds))))"
  by (simp add: parseFloat_def takeWhile_eq_all_conv[THEN iffD2]
        dropWhile_eq_Nil_conv[THEN iffD2])

lemma toDouble_0: "toDouble 0 = Finite 0"
  using toDouble_nat_exact [of 0] by simp

lemma extractPrice_digits:
  "extractPrice s = toDouble (of_nat (digitsValue (filter isDigit s)))"
  unfolding extractPrice_def cleaned_digits
  by (simp add: parseFloat_digits digitsValue_def toDouble_0)

lemma extractPrice_small:
  "digitsValue (filter isDigit s) < 2 ^ 53 \<Longrightarrow>
   extractPrice s = Finite (of_nat (digitsValue (filter isDigit s)))"
  by (simp add: extractPrice_digits toDouble_nat_exact)

lemmas digits_eval =
  isDigit_def digitsValue_def digitVal_def ascii_def RUPEE_def DOT_def COMMA_def

lemmas parse_eval =
  extractPrice_spec_def parseFloat_def digits_eval Let_def

lemma digitsValue_snoc: "digitsValue (ds @ [c]) = 10 * digitsValue ds + digitVal c"
  by (simp add: digitsValue_def)

lemma digitsValue_nines: "digitsValue (replicate k 0x39) = 10 ^ k - 1"
proof (induction k)
  case 0
  show ?case by (simp add: digitsValue_def)
next
  case (Suc k)
  have "digitsValue (replicate (Suc k) 0x39) = digitsValue (replicate k 0x39 @ [0x39])"
    by (simp only: replicate_append_same replicate_Suc)
  also have "\<dots> = 10 * (10 ^ k - 1) + 9"
    by (simp add: digitsValue_snoc Suc.IH digitVal_def)
  also have "\<dots> = 10 ^ Suc k - 1"
  proof -
    have "(1::nat) \<le> 10 ^ k" by simp
    then show ?thesis by (simp add: algebra_simps)
  qed
  finally show ?case .
qed

text \<open>
  C10, as stated, fails: the result is not a whole number for every input. A string of
  400 nines writes a number beyond the range of a double, \<open>parseFloat\<close> gives
  \<open>Infinity\<close> for it, \<open>Infinity\<close> is not \<open>NaN\<close>, and \<open>extractPrice\<close> returns it.
\<close>

theorem extractPrice_overflows_to_infinity:
  "extractPrice (ascii (replicate 400 CHR ''9'')) = PosInfinity"
proof -
  have s: "ascii (replicate 400 CHR ''9'') = replicate 400 0x39"
    by (simp add: ascii_def)
  have d: "filter isDigit (replicate 400 0x39) = replicate 400 0x39"
    by (simp add: isDigit_def)
  have "(2 :: nat) ^ 1024 \<le> 10 ^ 400 - 1"
    by simp
  then show ?thesis
    unfolding s extractPrice_digits d digitsValue_nines by (rule toDouble_overflow)
qed

text \<open>
  C10, amended. \<open>extractPrice\<close> never returns a value with a fractional part: the first
  substitution removes every full stop, so the result of every input is the double
  nearest to the whole number written by the digits of the input, in their order. That is
  a whole number or, when the digits are too many for a double, \<open>Infinity\<close>; it is the
  written number itself when that is below \<open>2 ^ 53\<close>. The digits of \<open>45.50\<close> are run
  together to 4550.
\<close>

theorem extractPrice_never_fractional:
  "(extractPrice s = PosInfinity \<or> (\<exists>n. extractPrice s = Finite (of_nat n)))
   \<and> extractPrice s = toDouble (of_nat (digitsValue (filter isDigit s)))
   \<and> (digitsValue (filter isDigit s) < 2 ^ 53 \<longrightarrow>
        extractPrice s = Finite (of_nat (digitsValue (filter isDigit s))))
   \<and> DOT \<notin> set (replaceGlobal isCurrencyNoise s)
   \<and> extractPrice (ascii ''45.50'') = Finite 4550"
proof -
  have "extractPrice s = PosInfinity \<or> (\<exists>n. extractPrice s = Finite (of_nat n))"
    unfolding extractPrice_digits by (rule toDouble_nat_whole)
  moreover have "DOT \<notin> set (replaceGlobal isCurrencyNoise s)"
    by (simp add: replaceGlobal_def noise_DOT)
  moreover have "extractPrice (ascii ''45.50'') = Finite 4550"
    by (simp add: extractPrice_small digits_eval)
  ultimately show ?thesis
    using extractPrice_digits [of s] extractPrice_small [of s] by blast
qed

theorem extractPrice_never_fractional_witness:
  "extractPrice (ascii ''Rs. 1,299.75'') = Finite 129975"
proof -
  have d: "digitsValue (filter isDigit (ascii ''Rs. 1,299.75'')) = 129975"
    by (simp add: digits_eval)
  from extractPrice_never_fractional [of "ascii ''Rs. 1,299.75''"]
  have "digitsValue (filter isDigit (ascii ''Rs. 1,299.75'')) < 2 ^ 53 \<longrightarrow>
        extractPrice (ascii ''Rs. 1,299.75'')
          = Finite (of_nat (digitsValue (filter isDigit (ascii ''Rs. 1,299.75''))))"
    by blast
  then show ?thesis
    unfolding d by simp
qed

text \<open>
  C1. \<open>extractPrice\<close> against its stated algorithm and examples. Three of the four
  examples hold. The fourth does not: the code gives 4550 for \<open>Rs. 45.50\<close>, where 45.5
  is stated, because the first substitution deletes the decimal point that the comment
  of the function and its second substitution mean to keep. On \<open>\<rupee>45.50\<close> the stated
  algorithm gives 45.5 and the code 4550. (On \<open>Rs. 45.50\<close> itself the stated algorithm
  keeps the full stop of \<open>Rs.\<close> as well and gives the double nearest to 0.45.)
\<close>

theorem extractPrice_loses_decimal_point:
  "extractPrice [] = Finite 0
   \<and> extractPrice (RUPEE # ascii ''1,299'') = Finite 1299
   \<and> extractPrice (ascii ''no price'') = Finite 0
   \<and> extractPrice (ascii ''Rs. 45.50'') = Finite 4550
   \<and> extractPrice (RUPEE # ascii ''45.50'') = Finite 4550
   \<and> extractPrice_spec (RUPEE # ascii ''45.50'') = Finite (91 / 2)
   \<and> extractPrice_spec (ascii ''Rs. 45.50'') = Finite (8106479329266893 / 18014398509481984)"
proof -
  have "extractPrice [] = Finite 0"
    and "extractPrice (RUPEE # ascii ''1,299'') = Finite 1299"
    and "extractPrice (ascii ''no price'') = Finite 0"
    and "extractPrice (ascii ''Rs. 45.50'') = Finite 4550"
    and "extractPrice (RUPEE # ascii ''45.50'') = Finite 4550"
    by (simp_all add: extractPrice_small digits_eval)
  moreover have "extractPrice_spec (RUPEE # ascii ''45.50'') = Finite (91 / 2)"
  proof -
    have e: "max (binaryExponent (91 / 2)) (- 1022) = 5"
      using binaryExponent_ge1 [of 5 "91 / 2"] by simp
    have "roundDouble (91 / 2) = of_int (91 * 2 ^ 46) * (1 / 2 ^ 47)"
      by (rule roundDouble_eq [OF _ e]) simp_all
    then have "roundDouble (91 / 2) = 91 / 2"
      by simp
    then have "toDouble (91 / 2) = Finite (91 / 2)"
      by (simp add: toDouble_def)
    then show ?thesis
      by (simp add: parse_eval)
  qed
  moreover have "extractPrice_spec (ascii ''Rs. 45.50'')
                   = Finite (8106479329266893 / 18014398509481984)"
  proof -
    have e: "max (binaryExponent (9 / 20)) (- 1022) = - 2"
      using binaryExponent_lt1 [of 1 "9 / 20"] by simp
    have "roundDouble (9 / 20) = of_int 8106479329266893 * (1 / 2 ^ 54)"
      by (rule roundDouble_eq [OF _ e]) simp_all
    then have "roundDouble (9 / 20) = 8106479329266893 / 18014398509481984"
      by simp
    then have "toDouble (9 / 20) = Finite (8106479329266893 / 18014398509481984)"
      by (simp add: toDouble_def)
    then show ?thesis
      by (simp add: parse_eval)
  qed
  ultimately show ?thesis
    by (simp only:)
qed

section \<open>The sort validator\<close>

lemma scanViolations_filter:
  "scanViolations ps i found =
     found @ map (mkViolation ps)
               (filter (\<lambda>j. price (ps ! j) < price (ps ! (j - 1))) [i..<length ps])"
proof (induction ps i found rule: scanViolations.induct)
  case (1 ps i found)
  show ?case
  proof (cases "i < length ps")
    case True
    then have "[i..<length ps] = i # [i + 1..<length ps]"
      by (simp add: upt_conv_Cons)
    with True 1 show ?thesis
      by (subst scanViolations.simps) simp
  next
    case False
    then show ?thesis
      by (subst scanViolations.simps) simp
  qed
qed

lemma report_violations:
  "violations (generateSortViolationReport ps) =
     map (mkViolation ps)
       (filter (\<lambda>j. price (ps ! j) < price (ps ! (j - 1))) [1..<length ps])"
  by (simp add: generateSortViolationReport_def Let_def scanViolations_filter)

lemma report_sorted_flag:
  "isCorrectlySorted (generateSortViolationReport ps)
     = (violations (generateSortViolationReport ps) = [])"
  by (simp add: generateSortViolationReport_def Let_def)

lemma no_descent_iff_sorted:
  "(filter (\<lambda>j. price (ps ! j) < price (ps ! (j - 1))) [1..<length ps] = [])
     = sorted (map price ps)"
proof
  assume e: "filter (\<lambda>j. price (ps ! j) < price (ps ! (j - 1))) [1..<length ps] = []"
  have "price (ps ! i) \<le> price (ps ! Suc i)" if "Suc i < length ps" for i
  proof -
    from that have "Suc i \<in> set [1..<length ps]" by simp
    with e have "\<not> price (ps ! Suc i) < price (ps ! (Suc i - 1))"
      unfolding filter_empty_conv by blast
    then show ?thesis by simp
  qed
  then show "sorted (map price ps)"
    by (simp add: sorted_iff_nth_Suc)
next
  assume s: "sorted (map price ps)"
  have "\<not> price (ps ! j) < price (ps ! (j - 1))" if "j \<in> set [1..<length ps]" for j
  proof -
    from that have j: "1 \<le> j" "j < length ps" by simp_all
    then have "map price ps ! (j - 1) \<le> map price ps ! j"
      using s by (intro sorted_nth_mono) simp_all
    with j show ?thesis by simp
  qed
  then show "filter (\<lambda>j. price (ps ! j) < price (ps ! (j - 1))) [1..<length ps] = []"
    by (simp add: filter_empty_conv)
qed

lemma report_sorted_iff:
  "isCorrectlySorted (generateSortViolationReport ps) = sorted (map price ps)"
  unfolding report_sorted_flag report_violations map_is_Nil_conv
  by (rule no_descent_iff_sorted)

lemmas sort_eval =
  generateSortViolationReport_def scanViolations.simps mkViolation_def Let_def

lemma violation_in_report:
  "v \<in> set (violations (generateSortViolationReport ps)) \<Longrightarrow>
   \<exists>i. 1 \<le> i \<and> i < length ps \<and> v = mkViolation ps i
       \<and> price (ps ! i) < price (ps ! (i - 1))"
  unfolding report_violations by auto

text \<open>
  C6. The sort validator flags only strict descents. For every sequence of items whose
  prices are in non-decreasing order, ties included, and so for every empty or
  single-item sequence, the report says \<open>isCorrectlySorted\<close> and has no violation; and
  every violation in a report comes from an index \<open>i \<ge> 1\<close> whose price is strictly below
  the price at \<open>i - 1\<close>. Hence the report says sorted exactly for the sorted sequences.
\<close>

theorem sort_report_flags_only_strict_descents:
  "(sorted (map price ps) \<longrightarrow>
      isCorrectlySorted (generateSortViolationReport ps)
      \<and> violations (generateSortViolationReport ps) = []
      \<and> violationsFound (generateSortViolationReport ps) = 0)
   \<and> (length ps \<le> 1 \<longrightarrow>
      isCorrectlySorted (generateSortViolationReport ps)
      \<and> violations (generateSortViolationReport ps) = [])
   \<and> (\<forall>v \<in> set (violations (generateSortViolationReport ps)).
        \<exists>i. 1 \<le> i \<and> i < length ps \<and> v = mkViolation ps i
            \<and> price (ps ! i) < price (ps ! (i - 1)))
   \<and> (isCorrectlySorted (generateSortViolationReport ps) \<longleftrightarrow> sorted (map price ps))"
proof -
  let ?r = "generateSortViolationReport ps"
  have flag: "isCorrectlySorted ?r = sorted (map price ps)"
    by (rule report_sorted_iff)
  have count: "violationsFound ?r = length (violations ?r)"
    by (simp add: generateSortViolationReport_def Let_def)
  have a: "isCorrectlySorted ?r \<and> violations ?r = [] \<and> violationsFound ?r = 0"
    if "sorted (map price ps)"
    using that flag count report_sorted_flag [of ps] by simp
  have short: "sorted (map price ps)" if "length ps \<le> 1"
    using that by (cases ps) (auto simp: le_Suc_eq)
  have b: "isCorrectlySorted ?r \<and> violations ?r = []" if "length ps \<le> 1"
    using a [OF short [OF that]] by simp
  from a b flag violation_in_report [of _ ps] show ?thesis
    by blast
qed

theorem sort_report_flags_only_strict_descents_witness:
  "isCorrectlySorted (generateSortViolationReport
      [\<lparr>name = ascii ''a'', price = 50, priceText = []\<rparr>,
       \<lparr>name = ascii ''b'', price = 50, priceText = []\<rparr>,
       \<lparr>name = ascii ''c'', price = 70, priceText = []\<rparr>])
   \<and> violations (generateSortViolationReport
      [\<lparr>name = ascii ''a'', price = 50, priceText = []\<rparr>,
       \<lparr>name = ascii ''b'', price = 50, priceText = []\<rparr>,
       \<lparr>name = ascii ''c'', price = 70, priceText = []\<rparr>]) = []
   \<and> isCorrectlySorted (generateSortViolationReport
      [\<lparr>name = ascii ''a'', price = 50, priceText = []\<rparr>])
   \<and> \<not> isCorrectlySorted (generateSortViolationReport
      [\<lparr>name = ascii ''a'', price = 70, priceText = []\<rparr>,
       \<lparr>name = ascii ''b'', price = 50, priceText = []\<rparr>])"
  using sort_report_flags_only_strict_descents
          [of "[\<lparr>name = ascii ''a'', price = 50, priceText = []\<rparr>,
                \<lparr>name = ascii ''b'', price = 50, priceText = []\<rparr>,
                \<lparr>name = ascii ''c'', price = 70, priceText = []\<rparr>]"]
        sort_report_flags_only_strict_descents
          [of "[\<lparr>name = ascii ''a'', price = 50, priceText = []\<rparr>]"]
        sort_report_flags_only_strict_descents
          [of "[\<lparr>name = ascii ''a'', price = 70, priceText = []\<rparr>,
                \<lparr>name = ascii ''b'', price = 50, priceText = []\<rparr>]"]
  by simp

lemma positions_of_report:
  "map position (violations (generateSortViolationReport ps)) =
     map Suc (filter (\<lambda>j. price (ps ! j) < price (ps ! (j - 1))) [1..<length ps])"
  unfolding report_violations by (simp add: mkViolation_def comp_def)

lemma positions_increasing:
  "sorted_wrt (<) (map position (violations (generateSortViolationReport ps)))"
proof -
  have "sorted_wrt (<) (filter (\<lambda>j. price (ps ! j) < price (ps ! (j - 1))) [1..<length ps])"
    by (rule sorted_wrt_filter) (simp add: sorted_wrt_upt)
  then show ?thesis
    unfolding positions_of_report by (simp add: sorted_wrt_map)
qed

text \<open>
  C7. Every item is compared with its immediate predecessor in the given sequence and
  with nothing else: the violations are, from left to right, the indices \<open>i\<close> from 1 to
  \<open>length - 1\<close> with \<open>price[i] < price[i - 1]\<close>, each reported with position \<open>i + 1\<close>, so
  their positions increase. The prices 100, 50, 200 give exactly one violation, at
  position 2 with current price 50 and previous price 100; the prices 100, 50, 20, one
  dip after the other, give violations at positions 2 and 3.
\<close>

theorem sort_report_compares_adjacent_pairs:
  "violations (generateSortViolationReport ps) =
     map (\<lambda>i. \<lparr>position = i + 1,
                productName = name (ps ! i), productPrice = price (ps ! i),
                previousProductName = name (ps ! (i - 1)),
                previousProductPrice = price (ps ! (i - 1))\<rparr>)
       (filter (\<lambda>i. price (ps ! i) < price (ps ! (i - 1))) [1..<length ps])
   \<and> sorted_wrt (<) (map position (violations (generateSortViolationReport ps)))
   \<and> violations (generateSortViolationReport
        [\<lparr>name = a, price = 100, priceText = ta\<rparr>,
         \<lparr>name = b, price = 50, priceText = tb\<rparr>,
         \<lparr>name = c, price = 200, priceText = tc\<rparr>])
      = [\<lparr>position = 2, productName = b, productPrice = 50,
          previousProductName = a, previousProductPrice = 100\<rparr>]
   \<and> map position (violations (generateSortViolationReport
        [\<lparr>name = a, price = 100, priceText = ta\<rparr>,
         \<lparr>name = b, price = 50, priceText = tb\<rparr>,
         \<lparr>name = c, price = 20, priceText = tc\<rparr>]))
      = [2, 3]"
proof -
  have "mkViolation ps = (\<lambda>i. \<lparr>position = i + 1,
                productName = name (ps ! i), productPrice = price (ps ! i),
                previousProductName = name (ps ! (i - 1)),
                previousProductPrice = price (ps ! (i - 1))\<rparr>)"
    by (rule ext) (simp add: mkViolation_def)
  then have "violations (generateSortViolationReport ps) =
     map (\<lambda>i. \<lparr>position = i + 1,
                productName = name (ps ! i), productPrice = price (ps ! i),
                previousProductName = name (ps ! (i - 1)),
                previousProductPrice = price (ps ! (i - 1))\<rparr>)
       (filter (\<lambda>i. price (ps ! i) < price (ps ! (i - 1))) [1..<length ps])"
    using report_violations [of ps] by simp
  moreover have "violations (generateSortViolationReport
        [\<lparr>name = a, price = 100, priceText = ta\<rparr>,
         \<lparr>name = b, price = 50, priceText = tb\<rparr>,
         \<lparr>name = c, price = 200, priceText = tc\<rparr>])
      = [\<lparr>position = 2, productName = b, productPrice = 50,
          previousProductName = a, previousProductPrice = 100\<rparr>]"
    by (simp add: sort_eval)
  moreover have "map position (violations (generateSortViolationReport
        [\<lparr>name = a, price = 100, priceText = ta\<rparr>,
         \<lparr>name = b, price = 50, priceText = tb\<rparr>,
         \<lparr>name = c, price = 20, priceText = tc\<rparr>]))
      = [2, 3]"
    by (simp add: sort_eval)
  ultimately show ?thesis
    using positions_increasing [of ps] by simp
qed

theorem sort_report_compares_adjacent_pairs_witness:
  "violations (generateSortViolationReport
        [\<lparr>name = ascii ''a'', price = 100, priceText = []\<rparr>,
         \<lparr>name = ascii ''b'', price = 50, priceText = []\<rparr>,
         \<lparr>name = ascii ''c'', price = 200, priceText = []\<rparr>])
      = [\<lparr>position = 2, productName = ascii ''b'', productPrice = 50,
          previousProductName = ascii ''a'', previousProductPrice = 100\<rparr>]"
  using sort_report_compares_adjacent_pairs
          [where a = "ascii ''a''" and b = "ascii ''b''" and c = "ascii ''c''"
             and ta = "[]" and tb = "[]" and tc = "[]"]
  by blast

text \<open>
  C8. Every report satisfies the invariants of the data model: \<open>isCorrectlySorted\<close> holds
  exactly when there is no violation, \<open>totalProducts\<close> is the length of the input,
  \<open>violationsFound\<close> counts the violations, and every violation has a position of at
  least 2 and a current price strictly below the previous price.
\<close>

theorem sort_report_invariants:
  "isCorrectlySorted (generateSortViolationReport ps)
     = (violations (generateSortViolationReport ps) = [])
   \<and> totalProducts (generateSortViolationReport ps) = length ps
   \<and> violationsFound (generateSortViolationReport ps)
       = length (violations (generateSortViolationReport ps))
   \<and> (\<forall>v \<in> set (violations (generateSortViolationReport ps)).
         2 \<le> position v \<and> productPrice v < previousProductPrice v)"
proof -
  have "2 \<le> position v \<and> productPrice v < previousProductPrice v"
    if "v \<in> set (violations (generateSortViolationReport ps))" for v
    using violation_in_report [OF that] by (auto simp: mkViolation_def)
  moreover have "totalProducts (generateSortViolationReport ps) = length ps"
    and "violationsFound (generateSortViolationReport ps)
       = length (violations (generateSortViolationReport ps))"
    by (simp_all add: generateSortViolationReport_def Let_def)
  ultimately show ?thesis
    using report_sorted_flag [of ps] by blast
qed

theorem sort_report_invariants_witness:
  "\<not> isCorrectlySorted (generateSortViolationReport
        [\<lparr>name = ascii ''a'', price = 100, priceText = []\<rparr>,
         \<lparr>name = ascii ''b'', price = 50, priceText = []\<rparr>,
         \<lparr>name = ascii ''c'', price = 200, priceText = []\<rparr>])
   \<and> totalProducts (generateSortViolationReport
        [\<lparr>name = ascii ''a'', price = 100, priceText = []\<rparr>,
         \<lparr>name = ascii ''b'', price = 50, priceText = []\<rparr>,
         \<lparr>name = ascii ''c'', price = 200, priceText = []\<rparr>]) = 3
   \<and> map position (violations (generateSortViolationReport
        [\<lparr>name = ascii ''a'', price = 100, priceText = []\<rparr>,
         \<lparr>name = ascii ''b'', price = 50, priceText = []\<rparr>,
         \<lparr>name = ascii ''c'', price = 200, priceText = []\<rparr>])) = [2]"
proof -
  have v: "violations (generateSortViolationReport
        [\<lparr>name = ascii ''a'', price = 100, priceText = []\<rparr>,
         \<lparr>name = ascii ''b'', price = 50, priceText = []\<rparr>,
         \<lparr>name = ascii ''c'', price = 200, priceText = []\<rparr>])
      = [\<lparr>position = 2, productName = ascii ''b'', productPrice = 50,
          previousProductName = ascii ''a'', previousProductPrice = 100\<rparr>]"
    by (simp add: sort_eval)
  show ?thesis
    using sort_report_invariants
          [of "[\<lparr>name = ascii ''a'', price = 100, priceText = []\<rparr>,
                \<lparr>name = ascii ''b'', price = 50, priceText = []\<rparr>,
                \<lparr>name = ascii ''c'', price = 200, priceText = []\<rparr>]"]
    by (simp add: v)
qed

section \<open>Formatting a price and normalising it again\<close>
























section \<open>Cart reconciliation\<close>

lemma checkExpected_verdict:
  "checkExpected lc items r e =
     (if status (verdictOf lc items e) = MATCH
      then r\<lparr>matches := matches r @ [verdictOf lc items e]\<rparr>
      else r\<lparr>passed := False, mismatches := mismatches r @ [verdictOf lc items e]\<rparr>)"
  by (simp add: checkExpected_def verdictOf_def Let_def split: option.splits)

lemma foldl_checkExpected:
  "foldl (checkExpected lc items) r es =
     r\<lparr>passed := passed r \<and> (\<forall>e \<in> set es. status (verdictOf lc items e) = MATCH),
       matches := matches r @ filter (\<lambda>v. status v = MATCH) (map (verdictOf lc items) es),
       mismatches :=
         mismatches r @ filter (\<lambda>v. status v \<noteq> MATCH) (map (verdictOf lc items) es)\<rparr>"
proof (induction es arbitrary: r)
  case Nil
  show ?case by simp
next
  case (Cons e es)
  let ?f = "checkExpected lc items" and ?v = "verdictOf lc items"
  have "foldl ?f r (e # es) = foldl ?f (?f r e) es"
    by simp
  also have "\<dots> = (?f r e)
      \<lparr>passed := passed (?f r e) \<and> (\<forall>e \<in> set es. status (?v e) = MATCH),
       matches := matches (?f r e) @ filter (\<lambda>v. status v = MATCH) (map ?v es),
       mismatches := mismatches (?f r e) @ filter (\<lambda>v. status v \<noteq> MATCH) (map ?v es)\<rparr>"
    by (rule Cons.IH)
  also have "\<dots> = r
      \<lparr>passed := passed r \<and> (\<forall>e \<in> set (e # es). status (?v e) = MATCH),
       matches := matches r @ filter (\<lambda>v. status v = MATCH) (map ?v (e # es)),
       mismatches := mismatches r @ filter (\<lambda>v. status v \<noteq> MATCH) (map ?v (e # es))\<rparr>"
    by (simp add: checkExpected_verdict)
  finally show ?case .
qed

lemma validate_passed:
  "passed (validateCartContents lc page es)
     = (\<forall>e \<in> set es. status (verdictOf lc (getCartItems page) e) = MATCH)"
  by (simp add: validateCartContents_def Let_def foldl_checkExpected)

lemma validate_matches:
  "matches (validateCartContents lc page es)
     = filter (\<lambda>v. status v = MATCH) (map (verdictOf lc (getCartItems page)) es)"
  by (simp add: validateCartContents_def Let_def foldl_checkExpected)

lemma validate_mismatches:
  "mismatches (validateCartContents lc page es)
     = filter (\<lambda>v. status v \<noteq> MATCH) (map (verdictOf lc (getCartItems page)) es)"
  by (simp add: validateCartContents_def Let_def foldl_checkExpected)

lemma verdictOf_expected: "expected (verdictOf lc items e) = e"
  by (simp add: verdictOf_def split: option.splits)

lemma verdictOf_actual: "actual (verdictOf lc items e) = find (nameMatches lc e) items"
  by (simp add: verdictOf_def split: option.splits)

lemma verdictOf_None:
  "find (nameMatches lc e) items = None \<Longrightarrow>
   verdictOf lc items e = \<lparr>expected = e, actual = None, status = NOT_FOUND\<rparr>"
  by (simp add: verdictOf_def)

lemma verdictOf_Some:
  "find (nameMatches lc e) items = Some m \<Longrightarrow>
   verdictOf lc items e =
     \<lparr>expected = e, actual = Some m,
      status = (if jsLess (jsAbs (jsSub (Finite (price m)) (price e))) (Finite 100)
                   \<or> price e = 0
                then MATCH else PRICE_MISMATCH)\<rparr>"
  by (simp add: verdictOf_def)


lemma verdict_in_result:
  "v \<in> set (matches (validateCartContents lc page es)
            @ mismatches (validateCartContents lc page es))
   \<longleftrightarrow> v \<in> verdictOf lc (getCartItems page) ` set es"
  by (auto simp: validate_matches validate_mismatches)

lemma nameMatches_sublist:
  "nameMatches lc e item \<longleftrightarrow>
     sublist (take 20 (lc (name e))) (lc (name item))
     \<or> sublist (take 20 (lc (name item))) (lc (name e))"
  by (simp add: nameMatches_def stringIncludes_def substring0_def)

lemma nameMatches_ascii:
  "lowerCasesAscii lc \<Longrightarrow> isAscii (name e) \<Longrightarrow> isAscii (name item) \<Longrightarrow>
   nameMatches lc e item \<longleftrightarrow>
     sublist (take 20 (asciiLowerCase (name e))) (asciiLowerCase (name item))
     \<or> sublist (take 20 (asciiLowerCase (name item))) (asciiLowerCase (name e))"
  by (simp add: nameMatches_sublist lowerCasesAscii_def)

lemmas cart_eval =
  asciiLowerCase_def ascii_def sublist_code isAscii_def
  nikeAirShoes_def nikeAirShoesRunning_def pumaSneakers_def nikeUpperCase_def nikeCart_def
  getCartItems_def

lemma lowerCasesAscii_ascii: "lowerCasesAscii asciiLowerCase"
  by (simp add: lowerCasesAscii_def)

lemma nike_upper_matches:
  "lowerCasesAscii lc \<Longrightarrow> nameMatches lc nikeUpperCase nikeAirShoesRunning"
proof -
  assume lc: "lowerCasesAscii lc"
  have "isAscii (name nikeUpperCase)" "isAscii (name nikeAirShoesRunning)"
    by (simp_all add: cart_eval)
  from nameMatches_ascii [OF lc this] show ?thesis
    by (simp add: cart_eval)
qed


lemma puma_no_match: "\<not> nameMatches asciiLowerCase pumaSneakers nikeAirShoesRunning"
  by (simp add: nameMatches_sublist cart_eval)


lemma nike_upper_found:
  "lowerCasesAscii lc \<Longrightarrow>
   find (nameMatches lc nikeUpperCase) (getCartItems nikeCart) = Some nikeAirShoesRunning"
  using nike_upper_matches [of lc] by (simp add: getCartItems_def nikeCart_def)

lemma toDouble_50: "toDouble 50 = Finite 50"
  using toDouble_nat_exact [of 50] by simp

lemma nike_upper_verdict:
  assumes "lowerCasesAscii lc"
  shows "verdictOf lc (getCartItems nikeCart) nikeUpperCase
           = \<lparr>expected = nikeUpperCase, actual = Some nikeAirShoesRunning, status = MATCH\<rparr>"
proof -
  have "jsSub (Finite (price nikeAirShoesRunning)) (price nikeUpperCase) = Finite 50"
    by (simp add: nikeAirShoesRunning_def nikeUpperCase_def toDouble_50)
  then show ?thesis
    by (simp add: verdictOf_Some [OF nike_upper_found [OF assms]])
qed

text \<open>
  C4. Cart reconciliation looks for each expected item in the items of the cart by
  matching names without regard to case, in both directions: an item matches when the
  first 20 code units of the lower-cased expected name occur in its lower-cased name, or
  the first 20 code units of its lower-cased name occur in the lower-cased expected name.
  For a case mapping that lower-cases ASCII strings, as \<open>toLowerCase\<close> does, and ASCII
  names this is the test on the names with \<open>A\<close> to \<open>Z\<close> turned into \<open>a\<close> to \<open>z\<close>; two
  expected names that differ in case only match the same items; and \<open>NIKE AIR SHOES\<close>
  matches \<open>Nike Air Shoes Running\<close>. The verdict of an expected item carries the first
  item of the cart, in order, that matches. When no item matches, the verdict is
  \<open>NOT_FOUND\<close>, it is among the mismatches, and \<open>passed\<close> is false.
\<close>

theorem cart_reconciliation_first_name_match:
  "(nameMatches lc e item \<longleftrightarrow>
      sublist (take 20 (lc (name e))) (lc (name item))
      \<or> sublist (take 20 (lc (name item))) (lc (name e)))
   \<and> (lowerCasesAscii lc \<longrightarrow>
        (isAscii (name e) \<and> isAscii (name item) \<longrightarrow>
           (nameMatches lc e item \<longleftrightarrow>
              sublist (take 20 (asciiLowerCase (name e))) (asciiLowerCase (name item))
              \<or> sublist (take 20 (asciiLowerCase (name item))) (asciiLowerCase (name e))))
        \<and> (isAscii (name e) \<and> isAscii (name e')
             \<and> asciiLowerCase (name e) = asciiLowerCase (name e') \<longrightarrow>
           nameMatches lc e item = nameMatches lc e' item)
        \<and> nameMatches lc nikeUpperCase nikeAirShoesRunning
        \<and> \<lparr>expected = nikeUpperCase, actual = Some nikeAirShoesRunning, status = MATCH\<rparr>
            \<in> set (matches (validateCartContents lc nikeCart [nikeUpperCase])))
   \<and> (\<forall>v \<in> set (matches (validateCartContents lc page es)
                  @ mismatches (validateCartContents lc page es)).
         expected v \<in> set es
         \<and> actual v = find (nameMatches lc (expected v)) (getCartItems page)
         \<and> (status v = NOT_FOUND \<longleftrightarrow> actual v = None))
   \<and> (\<forall>x \<in> set es. \<forall>i < length (getCartItems page).
         nameMatches lc x (getCartItems page ! i)
         \<and> (\<forall>j < i. \<not> nameMatches lc x (getCartItems page ! j))
         \<longrightarrow> (\<exists>v \<in> set (matches (validateCartContents lc page es)
                        @ mismatches (validateCartContents lc page es)).
                expected v = x \<and> actual v = Some (getCartItems page ! i)))
   \<and> (\<forall>x \<in> set es.
         (\<forall>item \<in> set (getCartItems page). \<not> nameMatches lc x item)
         \<longrightarrow> \<lparr>expected = x, actual = None, status = NOT_FOUND\<rparr>
               \<in> set (mismatches (validateCartContents lc page es))
             \<and> \<not> passed (validateCartContents lc page es))"
proof -
  let ?R = "validateCartContents lc page es"
  let ?items = "getCartItems page"
  have a: "expected v \<in> set es
         \<and> actual v = find (nameMatches lc (expected v)) ?items
         \<and> (status v = NOT_FOUND \<longleftrightarrow> actual v = None)"
    if "v \<in> set (matches ?R @ mismatches ?R)" for v
  proof -
    from that obtain x where x: "x \<in> set es" "v = verdictOf lc ?items x"
      unfolding verdict_in_result by blast
    then show ?thesis
      by (auto simp: verdictOf_def split: option.splits)
  qed
  have b: "\<exists>v \<in> set (matches ?R @ mismatches ?R).
             expected v = x \<and> actual v = Some (?items ! i)"
    if "x \<in> set es" "i < length ?items" "nameMatches lc x (?items ! i)"
       "\<forall>j < i. \<not> nameMatches lc x (?items ! j)" for x i
  proof -
    from that have "find (nameMatches lc x) ?items = Some (?items ! i)"
      unfolding find_Some_iff by blast
    then have "expected (verdictOf lc ?items x) = x"
      and "actual (verdictOf lc ?items x) = Some (?items ! i)"
      by (simp_all add: verdictOf_expected verdictOf_actual)
    moreover have "verdictOf lc ?items x \<in> set (matches ?R @ mismatches ?R)"
      unfolding verdict_in_result using that(1) by blast
    ultimately show ?thesis by blast
  qed
  have c: "\<lparr>expected = x, actual = None, status = NOT_FOUND\<rparr> \<in> set (mismatches ?R)
           \<and> \<not> passed ?R"
    if "x \<in> set es" "\<forall>item \<in> set ?items. \<not> nameMatches lc x item" for x
  proof -
    from that(2) have "find (nameMatches lc x) ?items = None"
      by (simp add: find_None_iff)
    then have v: "verdictOf lc ?items x = \<lparr>expected = x, actual = None, status = NOT_FOUND\<rparr>"
      by (rule verdictOf_None)
    then have "status (verdictOf lc ?items x) \<noteq> MATCH" by simp
    with that(1) v show ?thesis
      unfolding validate_passed validate_mismatches by force
  qed
  have d: "nameMatches lc e item = nameMatches lc e' item"
    if "lowerCasesAscii lc" "isAscii (name e)" "isAscii (name e')"
       "asciiLowerCase (name e) = asciiLowerCase (name e')"
  proof -
    from that have "lc (name e) = lc (name e')"
      by (simp add: lowerCasesAscii_def)
    then show ?thesis
      by (simp add: nameMatches_sublist)
  qed
  have f: "\<lparr>expected = nikeUpperCase, actual = Some nikeAirShoesRunning, status = MATCH\<rparr>
            \<in> set (matches (validateCartContents lc nikeCart [nikeUpperCase]))"
    if "lowerCasesAscii lc"
    unfolding validate_matches by (simp add: nike_upper_verdict [OF that])
  from a b c d f nameMatches_sublist [of lc e item] nameMatches_ascii [of lc e item]
    nike_upper_matches [of lc]
  show ?thesis
    by blast
qed

theorem cart_reconciliation_first_name_match_witness:
  "nameMatches asciiLowerCase nikeUpperCase nikeAirShoesRunning
   \<and> \<lparr>expected = nikeUpperCase, actual = Some nikeAirShoesRunning, status = MATCH\<rparr>
       \<in> set (matches (validateCartContents asciiLowerCase nikeCart [nikeUpperCase]))
   \<and> \<lparr>expected = pumaSneakers, actual = None, status = NOT_FOUND\<rparr>
       \<in> set (mismatches (validateCartContents asciiLowerCase nikeCart
                             [nikeUpperCase, pumaSneakers]))
   \<and> \<not> passed (validateCartContents asciiLowerCase nikeCart [nikeUpperCase, pumaSneakers])"
proof -
  note t = cart_reconciliation_first_name_match
            [of asciiLowerCase nikeUpperCase nikeAirShoesRunning nikeUpperCase nikeCart
                "[nikeUpperCase, pumaSneakers]"]
  have h: "\<forall>item \<in> set (getCartItems nikeCart). \<not> nameMatches asciiLowerCase pumaSneakers item"
    using puma_no_match by (simp add: getCartItems_def nikeCart_def)
  have p: "pumaSneakers \<in> set [nikeUpperCase, pumaSneakers]"
    by simp
  from t lowerCasesAscii_ascii
  have a: "nameMatches asciiLowerCase nikeUpperCase nikeAirShoesRunning
     \<and> \<lparr>expected = nikeUpperCase, actual = Some nikeAirShoesRunning, status = MATCH\<rparr>
       \<in> set (matches (validateCartContents asciiLowerCase nikeCart [nikeUpperCase]))"
    by blast
  from t h p
  have "\<lparr>expected = pumaSneakers, actual = None, status = NOT_FOUND\<rparr>
       \<in> set (mismatches (validateCartContents asciiLowerCase nikeCart
                             [nikeUpperCase, pumaSneakers]))
   \<and> \<not> passed (validateCartContents asciiLowerCase nikeCart [nikeUpperCase, pumaSneakers])"
    by blast
  with a show ?thesis
    by blast
qed

lemma whole_difference_exact:
  assumes "a \<in> \<int>" "b \<in> \<int>" "\<bar>a - b\<bar> < 2 ^ 53"
  shows "jsAbs (jsSub (Finite a) b) = Finite \<bar>a - b\<bar>"
proof -
  from assms(1,2) obtain z where z: "a - b = of_int z"
    by (metis Ints_cases of_int_diff)
  with assms(3) have "(of_int \<bar>z\<bar> :: rat) < of_int (2 ^ 53)" by simp
  then have "\<bar>z\<bar> < 2 ^ 53" unfolding of_int_less_iff .
  from toDouble_int_exact [OF this] show ?thesis
    by (simp add: z)
qed





section \<open>The total comparison\<close>

lemma binaryExponent_le:
  assumes "0 < x" "x < 2 ^ Suc m"
  shows "binaryExponent x \<le> int m"
proof (cases "1 \<le> x")
  case True
  then have f1: "1 \<le> \<lfloor>x\<rfloor>" by simp
  have "x < of_int (2 ^ Suc m)" using assms(2) by simp
  then have "\<lfloor>x\<rfloor> < 2 ^ Suc m" by (simp only: floor_less_iff)
  with f1 have hi: "nat \<lfloor>x\<rfloor> < 2 ^ Suc m" by (simp add: nat_less_iff)
  from f1 have pos: "0 < nat \<lfloor>x\<rfloor>" by simp
  from bitLength_bounds [OF pos] have "2 ^ (bitLength (nat \<lfloor>x\<rfloor>) - 1) \<le> nat \<lfloor>x\<rfloor>"
    by simp
  from this hi have "(2 :: nat) ^ (bitLength (nat \<lfloor>x\<rfloor>) - 1) < 2 ^ Suc m"
    by (rule le_less_trans)
  then have "bitLength (nat \<lfloor>x\<rfloor>) - 1 < Suc m"
    by (simp only: power_strict_increasing_iff)
  then have "int (bitLength (nat \<lfloor>x\<rfloor>)) - 1 \<le> int m" by linarith
  with True show ?thesis by (simp add: binaryExponent_def)
next
  case False
  then show ?thesis by (simp add: binaryExponent_def)
qed

lemma roundHalfEven_le: "of_int (roundHalfEven y) \<le> y + 1 / 2"
proof -
  have lo: "of_int \<lfloor>y\<rfloor> \<le> y" by simp
  have hi: "y < of_int \<lfloor>y\<rfloor> + 1" by linarith
  show ?thesis
  proof (cases "y - of_int \<lfloor>y\<rfloor> < 1 / 2")
    case True
    then have eq: "roundHalfEven y = \<lfloor>y\<rfloor>"
      by (simp add: roundHalfEven_def Let_def)
    from lo have "of_int \<lfloor>y\<rfloor> \<le> y + 1 / 2" by linarith
    then show ?thesis unfolding eq .
  next
    case False
    then have "roundHalfEven y \<le> \<lfloor>y\<rfloor> + 1"
      by (simp add: roundHalfEven_def Let_def)
    then have "(of_int (roundHalfEven y) :: rat) \<le> of_int (\<lfloor>y\<rfloor> + 1)"
      unfolding of_int_le_iff .
    then have "(of_int (roundHalfEven y) :: rat) \<le> of_int \<lfloor>y\<rfloor> + 1"
      by simp
    with False show ?thesis by linarith
  qed
qed

lemma roundDouble_small_bounds:
  assumes "0 < x" "x < 2 ^ 41"
  shows "roundDouble x \<le> x + 1 / 2 ^ 13"
    and "0 \<le> roundDouble x"
    and "\<And>z. 0 \<le> z \<Longrightarrow> of_int z \<le> x \<Longrightarrow> of_int z \<le> roundDouble x"
proof -
  define E where "E = max (binaryExponent x) (- 1022)"
  have "binaryExponent x \<le> 40"
    using binaryExponent_le [OF assms(1), of 40] assms(2) by simp
  then have E40: "E \<le> 40" by (simp add: E_def)
  have Elow: "- 1022 \<le> E" by (simp add: E_def)
  define j where "j = nat (52 - E)"
  have j12: "12 \<le> j" using E40 by (simp add: j_def)
  have u: "(if 52 \<le> E then 2 ^ nat (E - 52) else 1 / 2 ^ nat (52 - E)) = (1 / 2 ^ j :: rat)"
    using E40 by (simp add: j_def)
  define q where "q = roundHalfEven (x * 2 ^ j)"
  from assms(1) have ax: "\<bar>x\<bar> = x" and sx: "sgn x = 1" and nz: "(x = 0) = False"
    by simp_all
  have "roundDouble x = sgn x * of_int (roundHalfEven (\<bar>x\<bar> / (1 / 2 ^ j))) * (1 / 2 ^ j)"
    unfolding roundDouble_def Let_def nz if_False ax E_def [symmetric] u ..
  then have r: "roundDouble x = of_int q / 2 ^ j"
    unfolding ax sx q_def by simp
  have "of_int q \<le> x * 2 ^ j + 1 / 2"
    unfolding q_def by (rule roundHalfEven_le)
  then have "of_int q / 2 ^ j \<le> (x * 2 ^ j + 1 / 2) / 2 ^ j"
    by (simp add: divide_right_mono)
  also have "\<dots> = x + 1 / 2 ^ Suc j"
    by (simp add: field_simps)
  also have "\<dots> \<le> x + 1 / 2 ^ 13"
  proof -
    have "(2 :: rat) ^ 13 \<le> 2 ^ Suc j"
      using j12 by (intro power_increasing) simp_all
    then have "1 / (2 :: rat) ^ Suc j \<le> 1 / 2 ^ 13"
      by (intro divide_left_mono) simp_all
    then show ?thesis by simp
  qed
  finally show "roundDouble x \<le> x + 1 / 2 ^ 13"
    unfolding r .
  have "0 \<le> x * 2 ^ j" using assms(1) by simp
  then have "0 \<le> q" unfolding q_def by (rule roundHalfEven_nonneg)
  then show "0 \<le> roundDouble x"
    unfolding r by simp
  fix z :: int
  assume z: "0 \<le> z" "of_int z \<le> x"
  have "of_int (z * 2 ^ j) \<le> x * 2 ^ j"
    using z(2) by simp
  then have "z * 2 ^ j \<le> \<lfloor>x * 2 ^ j\<rfloor>"
    by (simp only: le_floor_iff)
  also have "\<dots> \<le> q"
    unfolding q_def by (rule roundHalfEven_ge_floor)
  finally have "(of_int (z * 2 ^ j) :: rat) \<le> of_int q"
    unfolding of_int_le_iff .
  then have "(of_int z :: rat) * 2 ^ j \<le> of_int q" by simp
  then show "of_int z \<le> roundDouble x"
    unfolding r by (simp add: pos_le_divide_eq)
qed

lemma tenPercent_excess: "tenPercent = 1 / 10 + 1 / (5 * 2 ^ 55)"
  by (simp add: tenPercent_def)

lemma tolerance_exact:
  assumes "d \<in> \<int>" "e \<in> \<int>" "0 \<le> e" "e \<le> 10 ^ 12" "\<bar>d - e\<bar> < 2 ^ 53"
  shows "jsLessEq (jsAbs (jsSub (Finite d) e)) (jsMul e tenPercent) = (\<bar>d - e\<bar> \<le> e / 10)"
proof -
  have k: "jsAbs (jsSub (Finite d) e) = Finite \<bar>d - e\<bar>"
    by (rule whole_difference_exact [OF assms(1,2,5)])
  show ?thesis
  proof (cases "e = 0")
    case True
    have "toDouble 0 = Finite 0"
      using toDouble_nat_exact [of 0] by simp
    then show ?thesis
      unfolding k using True by (simp add: jsMul_def)
  next
    case False
    with assms(3) have epos: "0 < e" by simp
    define x where "x = e * tenPercent"
    have xpos: "0 < x"
      using epos by (simp add: x_def tenPercent_def)
    have xe: "x = e / 10 + e / (5 * 2 ^ 55)"
      unfolding x_def tenPercent_excess by (simp add: field_simps)
    have "e / (5 * 2 ^ 55) \<le> 10 ^ 12 / (5 * 2 ^ 55)"
      using assms(4) by (simp add: divide_right_mono)
    with xe have xhi: "x \<le> e / 10 + 10 ^ 12 / (5 * 2 ^ 55)"
      by simp
    have "e / 10 \<le> 10 ^ 12 / 10"
      using assms(4) by (simp add: divide_right_mono)
    with xhi have "x \<le> 10 ^ 12 / 10 + 10 ^ 12 / (5 * 2 ^ 55)"
      by simp
    also have "\<dots> < 2 ^ 41"
      by simp
    finally have x41: "x < 2 ^ 41" .
    note b = roundDouble_small_bounds [OF xpos x41]
    have fin: "toDouble x = Finite (roundDouble x)"
    proof -
      have "roundDouble x \<le> x + 1 / 2 ^ 13" by (rule b(1))
      also have "\<dots> < 2 ^ 41 + 1 / 2 ^ 13" using x41 by simp
      also have "\<dots> < 2 ^ 1024" by simp
      finally have "roundDouble x < 2 ^ 1024" .
      moreover have "- (2 ^ 1024) < roundDouble x"
      proof -
        have "- (2 ^ 1024) < (0 :: rat)" by simp
        also have "\<dots> \<le> roundDouble x" by (rule b(2))
        finally show ?thesis .
      qed
      ultimately show ?thesis
        by (intro toDouble_finite) simp_all
    qed
    from assms(1,2) obtain z where z: "d - e = of_int z"
      by (metis Ints_cases of_int_diff)
    from assms(2) obtain n where n: "e = of_int n"
      by (rule Ints_cases)
    have az: "\<bar>d - e\<bar> = of_int \<bar>z\<bar>"
      by (simp add: z)
    have az2: "\<bar>d - of_int n\<bar> = of_int \<bar>z\<bar>"
      using az unfolding n .
    have "(\<bar>d - e\<bar> \<le> roundDouble x) = (\<bar>d - e\<bar> \<le> e / 10)"
    proof
      assume le: "\<bar>d - e\<bar> \<le> roundDouble x"
      show "\<bar>d - e\<bar> \<le> e / 10"
      proof (rule ccontr)
        assume "\<not> \<bar>d - e\<bar> \<le> e / 10"
        then have "\<not> (of_int \<bar>z\<bar> :: rat) \<le> of_int n / 10"
          unfolding n az2 .
        then have "(of_int n :: rat) < of_int (10 * \<bar>z\<bar>)"
          by simp
        then have "n < 10 * \<bar>z\<bar>"
          unfolding of_int_less_iff .
        then have "n + 1 \<le> 10 * \<bar>z\<bar>" by simp
        then have "(of_int (n + 1) :: rat) \<le> of_int (10 * \<bar>z\<bar>)"
          unfolding of_int_le_iff .
        then have "(of_int n :: rat) / 10 + 1 / 10 \<le> of_int \<bar>z\<bar>"
          by simp
        then have "e / 10 + 1 / 10 \<le> \<bar>d - e\<bar>"
          unfolding n az2 .
        moreover have "roundDouble x \<le> e / 10 + 10 ^ 12 / (5 * 2 ^ 55) + 1 / 2 ^ 13"
          using b(1) xhi by simp
        moreover have "(10 :: rat) ^ 12 / (5 * 2 ^ 55) + 1 / 2 ^ 13 < 1 / 10"
          by simp
        ultimately have "roundDouble x < \<bar>d - e\<bar>"
          by linarith
        with le show False by simp
      qed
    next
      assume le: "\<bar>d - e\<bar> \<le> e / 10"
      have "e / 10 \<le> x"
        unfolding xe using epos by simp
      with le have "of_int \<bar>z\<bar> \<le> x"
        unfolding az by simp
      then have "of_int \<bar>z\<bar> \<le> roundDouble x"
        by (intro b(3)) simp_all
      then show "\<bar>d - e\<bar> \<le> roundDouble x"
        unfolding az .
    qed
    then show ?thesis
      unfolding k jsMul_def x_def [symmetric] fin by simp
  qed
qed

lemma toDouble_numeral:
  "(numeral k :: nat) < 2 ^ 53 \<Longrightarrow> toDouble (numeral k) = Finite (numeral k)"
  using toDouble_nat_exact [of "numeral k"] by simp

lemma tenPercent_nearest: "tenPercent = roundDouble (1 / 10)"
proof -
  have e: "max (binaryExponent (1 / 10)) (- 1022) = - 4"
    using binaryExponent_lt1 [of 3 "1 / 10"] by simp
  have "roundDouble (1 / 10) = of_int 7205759403792794 * (1 / 2 ^ 56)"
    by (rule roundDouble_eq [OF _ e]) simp_all
  then show ?thesis
    by (simp add: tenPercent_def)
qed

lemma fifteenPercent_nearest: "fifteenPercent = roundDouble (15 / 100)"
proof -
  have e: "max (binaryExponent (15 / 100)) (- 1022) = - 3"
    using binaryExponent_lt1 [of 2 "15 / 100"] by simp
  have "roundDouble (15 / 100) = of_int 5404319552844595 * (1 / 2 ^ 55)"
    by (rule roundDouble_eq [OF _ e]) simp_all
  then show ?thesis
    by (simp add: fifteenPercent_def)
qed

lemma tenth_of_1000: "jsMul 1000 tenPercent = Finite 100"
proof -
  have v: "(1000 :: rat) * tenPercent = 450359962737049625 / 4503599627370496"
    by (simp add: tenPercent_def)
  have e: "max (binaryExponent (450359962737049625 / 4503599627370496)) (- 1022) = 6"
    using binaryExponent_ge1 [of 6 "450359962737049625 / 4503599627370496"] by simp
  have "roundDouble (450359962737049625 / 4503599627370496)
          = of_int 7036874417766400 * (1 / 2 ^ 46)"
    by (rule roundDouble_eq [OF _ e]) simp_all
  then have "roundDouble (450359962737049625 / 4503599627370496) = 100"
    by simp
  then have "toDouble (450359962737049625 / 4503599627370496) = Finite 100"
    by (rule toDouble_finite) simp_all
  then show ?thesis
    unfolding jsMul_def v .
qed

lemma fifteen_of_1000: "jsMul 1000 fifteenPercent = Finite 150"
proof -
  have v: "(1000 :: rat) * fifteenPercent = 675539944105574375 / 4503599627370496"
    by (simp add: fifteenPercent_def)
  have e: "max (binaryExponent (675539944105574375 / 4503599627370496)) (- 1022) = 7"
    using binaryExponent_ge1 [of 7 "675539944105574375 / 4503599627370496"] by simp
  have "roundDouble (675539944105574375 / 4503599627370496)
          = of_int 5277655813324800 * (1 / 2 ^ 45)"
    by (rule roundDouble_eq [OF _ e]) simp_all
  then have "roundDouble (675539944105574375 / 4503599627370496) = 150"
    by simp
  then have "toDouble (675539944105574375 / 4503599627370496) = Finite 150"
    by (rule toDouble_finite) simp_all
  then show ?thesis
    unfolding jsMul_def v .
qed

lemma single_item_cart:
  assumes "extractPrice t = Finite v" "toDouble v = Finite v"
  shows "getCartTotal \<lparr>scrapedItems = [i\<lparr>price := v\<rparr>], totalText = Some t\<rparr> = Finite v"
    and "calculateExpectedTotal \<lparr>scrapedItems = [i\<lparr>price := v\<rparr>], totalText = Some t\<rparr>
           = Finite v"
  using assms
  by (simp_all add: getCartTotal_def calculateExpectedTotal_def calculateTotal_def
        getCartItems_def)

lemma validateTotal_flags:
  "isDisplayedCorrect (validateTotal page e)
     = jsLessEq (jsAbs (jsSub (getCartTotal page) e)) (jsMul e tenPercent)"
  "isCalculatedCorrect (validateTotal page e)
     = jsLessEq (jsAbs (jsSub (calculateExpectedTotal page) e)) (jsMul e tenPercent)"
  by (simp_all add: validateTotal_def Let_def)

text \<open>
  C3, as stated, fails: \<open>validateTotal\<close> takes the expected total and nothing else, and
  multiplies it by 0.1 itself. With the ratio 0.15 that the specification names for carts
  with taxes and delivery, totals of 1120 against an expected 1000 are within tolerance
  (120 \<le> 150), while \<open>validateTotal\<close> says they are not (120 > 100).
\<close>

theorem validateTotal_ratio_not_a_parameter:
  "(isDisplayedCorrect
      (validateTotal \<lparr>scrapedItems = [nikeAirShoesRunning\<lparr>price := 1120\<rparr>],
                      totalText = Some (RUPEE # ascii ''1,120'')\<rparr> 1000),
    isCalculatedCorrect
      (validateTotal \<lparr>scrapedItems = [nikeAirShoesRunning\<lparr>price := 1120\<rparr>],
                      totalText = Some (RUPEE # ascii ''1,120'')\<rparr> 1000))
   \<noteq> compareTotal_spec
       (getCartTotal \<lparr>scrapedItems = [nikeAirShoesRunning\<lparr>price := 1120\<rparr>],
                      totalText = Some (RUPEE # ascii ''1,120'')\<rparr>)
       (calculateExpectedTotal \<lparr>scrapedItems = [nikeAirShoesRunning\<lparr>price := 1120\<rparr>],
                                totalText = Some (RUPEE # ascii ''1,120'')\<rparr>)
       1000 fifteenPercent"
proof -
  have x: "extractPrice (RUPEE # ascii ''1,120'') = Finite 1120"
    by (simp add: extractPrice_small digits_eval)
  have t: "toDouble 1120 = Finite 1120"
    by (simp add: toDouble_numeral)
  have s: "jsSub (Finite 1120) 1000 = Finite 120"
    by (simp add: toDouble_numeral)
  show ?thesis
    unfolding validateTotal_flags compareTotal_spec_def single_item_cart [OF x t] s
      tenth_of_1000 fifteen_of_1000
    by simp
qed

text \<open>
  C3, amended. \<open>validateTotal\<close> compares with a tolerance of 0.1 times the expected
  total, a ratio fixed in the function: each side is within tolerance exactly when
  \<open>|total - expected| \<le> expected * 0.1\<close> in the arithmetic of the program (the
  difference and the product rounded to doubles, \<open>0.1\<close> the double nearest to 1/10),
  which is the specification's comparison at the ratio 0.1. For whole totals, the
  expected one between 0 and \<open>10 ^ 12\<close>, the rounding changes nothing: a side is within
  tolerance exactly when \<open>|total - expected| \<le> expected / 10\<close>. Totals of 1080 against
  an expected 1000 are within tolerance on both sides, totals of 1200 are not.
\<close>

theorem validateTotal_fixed_ten_percent:
  "displayedTotal (validateTotal page e) = getCartTotal page
   \<and> calculatedTotal (validateTotal page e) = calculateTotal (map price (getCartItems page))
   \<and> expectedTotal (validateTotal page e) = e
   \<and> isDisplayedCorrect (validateTotal page e)
       = jsLessEq (jsAbs (jsSub (getCartTotal page) e)) (jsMul e tenPercent)
   \<and> isCalculatedCorrect (validateTotal page e)
       = jsLessEq (jsAbs (jsSub (calculateExpectedTotal page) e)) (jsMul e tenPercent)
   \<and> (isDisplayedCorrect (validateTotal page e), isCalculatedCorrect (validateTotal page e))
       = compareTotal_spec (getCartTotal page) (calculateExpectedTotal page) e tenPercent
   \<and> tenPercent = roundDouble (1 / 10)
   \<and> (\<forall>d. getCartTotal page = Finite d \<and> d \<in> \<int> \<and> e \<in> \<int> \<and> 0 \<le> e \<and> e \<le> 10 ^ 12
            \<and> \<bar>d - e\<bar> < 2 ^ 53 \<longrightarrow>
          isDisplayedCorrect (validateTotal page e) = (\<bar>d - e\<bar> \<le> e / 10))
   \<and> (\<forall>d. calculateExpectedTotal page = Finite d \<and> d \<in> \<int> \<and> e \<in> \<int> \<and> 0 \<le> e
            \<and> e \<le> 10 ^ 12 \<and> \<bar>d - e\<bar> < 2 ^ 53 \<longrightarrow>
          isCalculatedCorrect (validateTotal page e) = (\<bar>d - e\<bar> \<le> e / 10))
   \<and> isDisplayedCorrect
       (validateTotal \<lparr>scrapedItems = [nikeAirShoesRunning\<lparr>price := 1080\<rparr>],
                       totalText = Some (RUPEE # ascii ''1,080'')\<rparr> 1000)
   \<and> isCalculatedCorrect
       (validateTotal \<lparr>scrapedItems = [nikeAirShoesRunning\<lparr>price := 1080\<rparr>],
                       totalText = Some (RUPEE # ascii ''1,080'')\<rparr> 1000)
   \<and> \<not> isDisplayedCorrect
       (validateTotal \<lparr>scrapedItems = [nikeAirShoesRunning\<lparr>price := 1200\<rparr>],
                       totalText = Some (RUPEE # ascii ''1,200'')\<rparr> 1000)
   \<and> \<not> isCalculatedCorrect
       (validateTotal \<lparr>scrapedItems = [nikeAirShoesRunning\<lparr>price := 1200\<rparr>],
                       totalText = Some (RUPEE # ascii ''1,200'')\<rparr> 1000)"
proof -
  have x1: "extractPrice (RUPEE # ascii ''1,080'') = Finite 1080"
    and x2: "extractPrice (RUPEE # ascii ''1,200'') = Finite 1200"
    by (simp_all add: extractPrice_small digits_eval)
  have t1: "toDouble 1080 = Finite 1080" and t2: "toDouble 1200 = Finite 1200"
    by (simp_all add: toDouble_numeral)
  have s1: "jsSub (Finite 1080) 1000 = Finite 80"
    and s2: "jsSub (Finite 1200) 1000 = Finite 200"
    by (simp_all add: toDouble_numeral)
  have "isDisplayedCorrect
       (validateTotal \<lparr>scrapedItems = [nikeAirShoesRunning\<lparr>price := 1080\<rparr>],
                       totalText = Some (RUPEE # ascii ''1,080'')\<rparr> 1000)"
    and "isCalculatedCorrect
       (validateTotal \<lparr>scrapedItems = [nikeAirShoesRunning\<lparr>price := 1080\<rparr>],
                       totalText = Some (RUPEE # ascii ''1,080'')\<rparr> 1000)"
    unfolding validateTotal_flags single_item_cart [OF x1 t1] s1 tenth_of_1000
    by simp_all
  moreover have "\<not> isDisplayedCorrect
       (validateTotal \<lparr>scrapedItems = [nikeAirShoesRunning\<lparr>price := 1200\<rparr>],
                       totalText = Some (RUPEE # ascii ''1,200'')\<rparr> 1000)"
    and "\<not> isCalculatedCorrect
       (validateTotal \<lparr>scrapedItems = [nikeAirShoesRunning\<lparr>price := 1200\<rparr>],
                       totalText = Some (RUPEE # ascii ''1,200'')\<rparr> 1000)"
    unfolding validateTotal_flags single_item_cart [OF x2 t2] s2 tenth_of_1000
    by simp_all
  moreover have "displayedTotal (validateTotal page e) = getCartTotal page"
    and "calculatedTotal (validateTotal page e) = calculateTotal (map price (getCartItems page))"
    and "expectedTotal (validateTotal page e) = e"
    by (simp_all add: validateTotal_def calculateExpectedTotal_def Let_def)
  moreover have "(isDisplayedCorrect (validateTotal page e),
                  isCalculatedCorrect (validateTotal page e))
       = compareTotal_spec (getCartTotal page) (calculateExpectedTotal page) e tenPercent"
    by (simp add: validateTotal_flags compareTotal_spec_def)
  moreover have "isDisplayedCorrect (validateTotal page e) = (\<bar>d - e\<bar> \<le> e / 10)"
    if "getCartTotal page = Finite d" "d \<in> \<int>" "e \<in> \<int>" "0 \<le> e" "e \<le> 10 ^ 12"
       "\<bar>d - e\<bar> < 2 ^ 53" for d
    unfolding validateTotal_flags that(1) by (rule tolerance_exact [OF that(2-6)])
  moreover have "isCalculatedCorrect (validateTotal page e) = (\<bar>d - e\<bar> \<le> e / 10)"
    if "calculateExpectedTotal page = Finite d" "d \<in> \<int>" "e \<in> \<int>" "0 \<le> e" "e \<le> 10 ^ 12"
       "\<bar>d - e\<bar> < 2 ^ 53" for d
    unfolding validateTotal_flags that(1) by (rule tolerance_exact [OF that(2-6)])
  ultimately show ?thesis
    using validateTotal_flags [of page e] tenPercent_nearest by blast
qed

theorem validateTotal_fixed_ten_percent_witness:
  "isDisplayedCorrect
     (validateTotal \<lparr>scrapedItems = [nikeAirShoesRunning\<lparr>price := 13\<rparr>],
                     totalText = Some (ascii ''Rs. 13'')\<rparr>
        (8131499327196729 / 562949953421312))
   \<and> isCalculatedCorrect
       (validateTotal \<lparr>scrapedItems = [nikeAirShoesRunning\<lparr>price := 13\<rparr>],
                       totalText = Some (ascii ''Rs. 13'')\<rparr>
          (8131499327196729 / 562949953421312))
   \<and> isDisplayedCorrect
       (validateTotal \<lparr>scrapedItems = [], totalText = Some (ascii ''Rs. 950'')\<rparr> 1000)
   \<and> \<not> isCalculatedCorrect
        (validateTotal \<lparr>scrapedItems = [], totalText = Some (ascii ''Rs. 950'')\<rparr> 1000)"
proof -
  let ?e = "8131499327196729 / 562949953421312 :: rat"
  let ?page = "\<lparr>scrapedItems = [nikeAirShoesRunning\<lparr>price := 13\<rparr>],
                 totalText = Some (ascii ''Rs. 13'')\<rparr>"
  have x: "extractPrice (ascii ''Rs. 13'') = Finite 13"
    by (simp add: extractPrice_small digits_eval)
  have t: "toDouble 13 = Finite 13"
    by (simp add: toDouble_numeral)
  have d: "jsAbs (jsSub (Finite 13) ?e) = Finite (813149932719673 / 562949953421312)"
  proof -
    have v: "(13 :: rat) - ?e = - (813149932719673 / 562949953421312)"
      by simp
    have e: "max (binaryExponent (813149932719673 / 562949953421312)) (- 1022) = 0"
      using binaryExponent_ge1 [of 0 "813149932719673 / 562949953421312"] by simp
    have "roundDouble (813149932719673 / 562949953421312)
            = of_int 6505199461757384 * (1 / 2 ^ 52)"
      by (rule roundDouble_eq [OF _ e]) simp_all
    then have "roundDouble (813149932719673 / 562949953421312)
            = 813149932719673 / 562949953421312"
      by simp
    then have "roundDouble (- (813149932719673 / 562949953421312))
            = - (813149932719673 / 562949953421312)"
      unfolding roundDouble_minus by simp
    then have "toDouble (- (813149932719673 / 562949953421312))
            = Finite (- (813149932719673 / 562949953421312))"
      by (rule toDouble_finite) simp_all
    then show ?thesis
      unfolding jsSub.simps v by simp
  qed
  have m: "jsMul ?e tenPercent = Finite (813149932719673 / 562949953421312)"
  proof -
    have v: "?e * tenPercent
               = 29296813871941303750099195285413 / 20282409603651670423947251286016"
      by (simp add: tenPercent_def)
    have e: "max (binaryExponent
                (29296813871941303750099195285413 / 20282409603651670423947251286016))
               (- 1022) = 0"
      using binaryExponent_ge1
              [of 0 "29296813871941303750099195285413 / 20282409603651670423947251286016"]
      by simp
    have "roundDouble (29296813871941303750099195285413 / 20282409603651670423947251286016)
            = of_int 6505199461757384 * (1 / 2 ^ 52)"
      by (rule roundDouble_eq [OF _ e]) simp_all
    then have "roundDouble
                 (29296813871941303750099195285413 / 20282409603651670423947251286016)
            = 813149932719673 / 562949953421312"
      by simp
    then have "toDouble (29296813871941303750099195285413 / 20282409603651670423947251286016)
            = Finite (813149932719673 / 562949953421312)"
      by (rule toDouble_finite) simp_all
    then show ?thesis
      unfolding jsMul_def v .
  qed
  note w = validateTotal_fixed_ten_percent [of ?page ?e]
  from w have "isDisplayedCorrect (validateTotal ?page ?e)
       = jsLessEq (jsAbs (jsSub (getCartTotal ?page) ?e)) (jsMul ?e tenPercent)"
    and "isCalculatedCorrect (validateTotal ?page ?e)
       = jsLessEq (jsAbs (jsSub (calculateExpectedTotal ?page) ?e)) (jsMul ?e tenPercent)"
    by blast+
  then have a: "isDisplayedCorrect (validateTotal ?page ?e)"
    and b: "isCalculatedCorrect (validateTotal ?page ?e)"
    unfolding single_item_cart [OF x t] d m by simp_all
  let ?q = "\<lparr>scrapedItems = [], totalText = Some (ascii ''Rs. 950'')\<rparr>"
  have g: "getCartTotal ?q = Finite 950"
    by (simp add: getCartTotal_def extractPrice_small digits_eval)
  have c: "calculateExpectedTotal ?q = Finite 0"
    by (simp add: calculateExpectedTotal_def calculateTotal_def getCartItems_def)
  have h: "(950 :: rat) \<in> \<int> \<and> (1000 :: rat) \<in> \<int> \<and> (0 :: rat) \<le> 1000
             \<and> (1000 :: rat) \<le> 10 ^ 12 \<and> \<bar>950 - 1000 :: rat\<bar> < 2 ^ 53"
    and h': "(0 :: rat) \<in> \<int> \<and> (1000 :: rat) \<in> \<int> \<and> (0 :: rat) \<le> 1000
             \<and> (1000 :: rat) \<le> 10 ^ 12 \<and> \<bar>0 - 1000 :: rat\<bar> < 2 ^ 53"
    by simp_all
  note w' = validateTotal_fixed_ten_percent [of ?q 1000]
  from w' g h have "isDisplayedCorrect (validateTotal ?q 1000)
                      = (\<bar>950 - 1000 :: rat\<bar> \<le> 1000 / 10)"
    by blast
  moreover from w' c h' have "isCalculatedCorrect (validateTotal ?q 1000)
                      = (\<bar>0 - 1000 :: rat\<bar> \<le> 1000 / 10)"
    by blast
  ultimately have "isDisplayedCorrect (validateTotal ?q 1000)"
    and "\<not> isCalculatedCorrect (validateTotal ?q 1000)"
    by simp_all
  with a b show ?thesis
    by blast
qed

end
